theory Spec2Isabelle
  imports Main
begin

section \<open>Reflection values used by the container\<close>

text \<open>
  The container of \<^verbatim>\<open>spring-core/gs/gs.go\<close> talks to Go's \<^verbatim>\<open>reflect\<close> package.
  A \<^verbatim>\<open>reflect.Type\<close> is an interned descriptor compared by identity, so a type is a
  number here and everything \<^verbatim>\<open>reflect\<close> answers about it is read from a table
  \<open>Reflect\<close>. Struct types may refer to themselves through pointers
  (\<^verbatim>\<open>type A struct { *A }\<close>), which a table represents and a finite tree would not.
\<close>

type_synonym rtype = nat

datatype Kind = Interface | Struct | Ptr | String | OtherKind

record StructField =
  fieldName :: string
  fieldType :: rtype
  anonymous :: bool
  tag :: "(string \<times> string) list"

record Reflect =
  kindOf :: "rtype \<Rightarrow> Kind"
  elemOf :: "rtype \<Rightarrow> rtype"
  fieldsOf :: "rtype \<Rightarrow> StructField list"
  implements :: "rtype \<Rightarrow> rtype \<Rightarrow> bool"
  assignableTo :: "rtype \<Rightarrow> rtype \<Rightarrow> bool"
  typeString :: "rtype \<Rightarrow> string"

text \<open>\<^verbatim>\<open>f.Tag.Lookup(key)\<close>: only the presence flag is used by the container.\<close>

definition Lookup :: "(string \<times> string) list \<Rightarrow> string \<Rightarrow> bool" where
  "Lookup tg k = (map_of tg k \<noteq> None)"

text \<open>\<^verbatim>\<open>util.Indirect\<close>: the element type of a pointer type, the type itself otherwise.\<close>

definition Indirect :: "Reflect \<Rightarrow> rtype \<Rightarrow> rtype" where
  "Indirect R t = (if kindOf R t = Ptr then elemOf R t else t)"

section \<open>Errors and panics\<close>

text \<open>
  A Go \<^verbatim>\<open>error\<close> is its message, \<open>None\<close> being \<^verbatim>\<open>nil\<close>. A call either returns
  or panics; the container reached at that point is kept beside the outcome.
\<close>

type_synonym error = string

datatype 'a outcome = Returns 'a | Panics string

section \<open>Destroyers\<close>

text \<open>
  Modelled from the spec: the type \<^verbatim>\<open>destroyer\<close> and its method \<^verbatim>\<open>run\<close> are not in
  \<^verbatim>\<open>gs.go\<close>. A destroyer entry is a teardown function associated with the bean that
  produced it. The assembly and the live instances it works on are the abstract world
  \<open>'w\<close>; \<open>run\<close> may return \<^verbatim>\<open>nil\<close>, return an error, or panic.
\<close>

type_synonym ptr = nat

record 'w destroyer =
  dbean :: ptr
  run :: "'w \<Rightarrow> error option outcome \<times> 'w"

text \<open>
  \<^verbatim>\<open>runDestroyers\<close> walks \<^verbatim>\<open>c.destroyerList\<close> from front to back. The result lists,
  in the order of the calls, every entry that was run with what it returned, and the
  errors handed to \<^verbatim>\<open>log.Error\<close>.
\<close>

primrec runDestroyersFrom ::
  "'w destroyer list \<Rightarrow> 'w \<Rightarrow> unit outcome \<times> 'w \<times> (ptr \<times> error option) list \<times> error list" where
  "runDestroyersFrom [] w = (Returns (), w, [], [])"
| "runDestroyersFrom (d # ds) w =
     (case run d w of
        (Panics m, w') \<Rightarrow> (Panics m, w', [], [])
      | (Returns err, w') \<Rightarrow>
          (case runDestroyersFrom ds w' of
             (out, w'', calls, logged) \<Rightarrow>
               (out, w'', (dbean d, err) # calls,
                (case err of None \<Rightarrow> [] | Some e \<Rightarrow> [e]) @ logged)))"

section \<open>Bean descriptors and the container\<close>

datatype refreshState = Unrefreshed | Refreshing | Refreshed

datatype beanStatus = Default | Resolving | Resolved | Deleted

text \<open>
  Modelled from the spec: the declaration of \<^verbatim>\<open>beanStatus\<close> and the numbers of its
  constants are not in \<^verbatim>\<open>gs.go\<close>, which compares \<^verbatim>\<open>b.status >= Resolving\<close>. The spec
  gives the progression Default, then Resolving, then one of Resolved or Deleted, and
  counts both of the last two as past Resolving.
\<close>

fun statusOrd :: "beanStatus \<Rightarrow> nat" where
  "statusOrd Default = 0"
| "statusOrd Resolving = 1"
| "statusOrd Resolved = 2"
| "statusOrd Deleted = 3"

text \<open>
  A \<^verbatim>\<open>bean.Selector\<close> is an \<^verbatim>\<open>interface{}\<close> value. \<^verbatim>\<open>find\<close> reads its dynamic type
  and, when that type is \<^verbatim>\<open>string\<close> itself, the string: \<open>SelNil\<close> is the nil
  interface, \<open>SelString\<close> a value of type \<^verbatim>\<open>string\<close>, \<open>SelValue\<close> a value of any
  other type. On a value of another type whose kind is String the type assertion
  \<^verbatim>\<open>selector.(string)\<close> panics.
\<close>

datatype selector = SelNil | SelString string | SelValue rtype

text \<open>
  Modelled from the spec: the condition type behind \<^verbatim>\<open>b.cond.Matches(&pandora{c})\<close>
  and the facade \<^verbatim>\<open>pandora\<close> are not in \<^verbatim>\<open>gs.go\<close>. A condition is a predicate
  evaluated against a view of the container; a condition that inspects other beans
  performs lookups, which trigger resolution of the beans they reach. So a condition is
  a program that ends with a boolean (or panics) and whose only action on the container
  is a lookup, continuing with what the lookup returned. Property lookups cannot change
  once refresh has begun and are part of the program's shape.
\<close>

datatype cond =
    CondReturn bool
  | CondPanic string
  | CondFind selector "ptr list \<times> error option \<Rightarrow> cond"

text \<open>
  The fields and getters of \<^verbatim>\<open>BeanDefinition\<close> that \<^verbatim>\<open>gs.go\<close> reads: \<^verbatim>\<open>ID()\<close>,
  \<^verbatim>\<open>name\<close>, \<^verbatim>\<open>Type()\<close>, \<^verbatim>\<open>cond\<close> (\<open>None\<close> is \<^verbatim>\<open>nil\<close>), \<^verbatim>\<open>exports\<close>, \<^verbatim>\<open>status\<close>
  and \<^verbatim>\<open>Description()\<close>. \<^verbatim>\<open>exports\<close> is a Go map used as a set; the list holds its
  keys in the order in which \<^verbatim>\<open>range\<close> visits them.
\<close>

record BeanDefinition =
  beanID :: string
  name :: string
  beanType :: rtype
  cond :: "cond option"
  exports :: "rtype list"
  status :: beanStatus
  description :: string

text \<open>
  Modelled from the spec: \<^verbatim>\<open>Configer\<close> is declared outside \<^verbatim>\<open>gs.go\<close>; it is an
  initialization function with an optional condition.
\<close>

record 'w Configer =
  cfgCond :: "cond option"
  cfgCall :: "'w \<Rightarrow> error option outcome \<times> 'w"

text \<open>
  The container. Beans are handled through pointers, so the descriptors live in
  \<open>store\<close> and every index holds pointers. \<^verbatim>\<open>beansById\<close> keeps its entries in the
  order in which \<^verbatim>\<open>range\<close> visits them; the two other indices map a missing key to the
  empty slice, as Go does. The wait group is its counter and the context is its
  cancellation count.
\<close>

record 'w Container =
  p :: "(string \<times> string) list"
  state :: refreshState
  wg :: nat
  cancelled :: nat
  store :: "ptr \<Rightarrow> BeanDefinition"
  beans :: "ptr list"
  beansById :: "(string \<times> ptr) list"
  beansByName :: "string \<Rightarrow> ptr list"
  beansByType :: "rtype \<Rightarrow> ptr list"
  configers :: "'w Configer list"
  configerList :: "'w Configer list"
  destroyerList :: "'w destroyer list"

text \<open>
  What \<^verbatim>\<open>gs.go\<close> calls in the other files of the package, taken as parameters:
  \<^verbatim>\<open>b.Match\<close>, \<^verbatim>\<open>parseSingletonTag\<close>, \<^verbatim>\<open>sort.Triple\<close> over the configers,
  \<^verbatim>\<open>assembly.wireBean\<close> and \<^verbatim>\<open>assembly.sortDestroyers\<close>.
\<close>

record 'w Ext =
  matchBean :: "BeanDefinition \<Rightarrow> string \<Rightarrow> string \<Rightarrow> bool"
  parseSingletonTag :: "string \<Rightarrow> string \<times> string"
  sortConfigers :: "'w Configer list \<Rightarrow> 'w Configer list"
  wireBean :: "ptr \<Rightarrow> 'w \<Rightarrow> error option outcome \<times> 'w"
  sortDestroyers :: "'w \<Rightarrow> 'w destroyer list"

definition setStatus :: "ptr \<Rightarrow> beanStatus \<Rightarrow> 'w Container \<Rightarrow> 'w Container" where
  "setStatus b s c = c\<lparr>store := (store c)(b := (store c b)\<lparr>status := s\<rparr>)\<rparr>"

definition setExports :: "ptr \<Rightarrow> rtype list \<Rightarrow> 'w Container \<Rightarrow> 'w Container" where
  "setExports b ex c = c\<lparr>store := (store c)(b := (store c b)\<lparr>exports := ex\<rparr>)\<rparr>"

definition indexByType :: "rtype \<Rightarrow> ptr \<Rightarrow> 'w Container \<Rightarrow> 'w Container" where
  "indexByType t b c = c\<lparr>beansByType := (beansByType c)(t := beansByType c t @ [b])\<rparr>"

definition indexByName :: "string \<Rightarrow> ptr \<Rightarrow> 'w Container \<Rightarrow> 'w Container" where
  "indexByName n b c = c\<lparr>beansByName := (beansByName c)(n := beansByName c n @ [b])\<rparr>"

definition deleteById :: "string \<Rightarrow> 'w Container \<Rightarrow> 'w Container" where
  "deleteById k c = c\<lparr>beansById := filter (\<lambda>e. fst e \<noteq> k) (beansById c)\<rparr>"

section \<open>Auto-export\<close>

text \<open>
  Modelled from the spec: \<^verbatim>\<open>b.Export\<close> is declared outside \<^verbatim>\<open>gs.go\<close>; the type is
  registered as an export of the bean.
\<close>

definition Export :: "rtype \<Rightarrow> rtype list \<Rightarrow> rtype list" where
  "Export t ex = (if t \<in> set ex then ex else ex @ [t])"

text \<open>
  \<^verbatim>\<open>autoExport\<close> loops over the fields of a struct type and calls itself on embedded
  structs. \<open>autoExportFrom\<close> is that loop from some field on, with the exports
  collected so far; the result is the returned error and the exports. On a struct that
  embeds itself through a pointer the Go function never returns, which is \<open>None\<close>.
\<close>

partial_function (option) autoExportFrom ::
  "Reflect \<Rightarrow> StructField list \<Rightarrow> rtype list \<Rightarrow> (error option \<times> rtype list) option" where
  "autoExportFrom R fs ex =
     (case fs of
        [] \<Rightarrow> Some (None, ex)
      | f # rest \<Rightarrow>
          (let export = Lookup (tag f) ''export'';
               inject = Lookup (tag f) ''inject'';
               autowire = Lookup (tag f) ''autowire''
           in if \<not> export then
                (if \<not> anonymous f \<or> inject \<or> autowire then autoExportFrom R rest ex
                 else (let typ = Indirect R (fieldType f)
                       in if kindOf R typ = Struct then
                            Option.bind (autoExportFrom R (fieldsOf R typ) ex)
                              (\<lambda>(err, ex'). case err of
                                   Some e \<Rightarrow> Some (Some e, ex')
                                 | None \<Rightarrow> autoExportFrom R rest ex')
                          else autoExportFrom R rest ex))
              else if kindOf R (fieldType f) \<noteq> Interface then
                Some (Some ''export can only use on interface'', ex)
              else if export \<and> (inject \<or> autowire) then
                Some (Some ''inject or autowire can't use with export'', ex)
              else autoExportFrom R rest (Export (fieldType f) ex)))"

declare autoExportFrom.simps [code]

definition autoExport ::
  "Reflect \<Rightarrow> rtype \<Rightarrow> rtype list \<Rightarrow> (error option \<times> rtype list) option" where
  "autoExport R t ex = autoExportFrom R (fieldsOf R t) ex"

text \<open>
  The call site in \<^verbatim>\<open>resolveBean\<close>: \<^verbatim>\<open>autoExport\<close> runs only when the bean's type,
  after \<^verbatim>\<open>util.Indirect\<close>, is a struct.
\<close>

definition autoExportBean ::
  "Reflect \<Rightarrow> BeanDefinition \<Rightarrow> (error option \<times> rtype list) option" where
  "autoExportBean R d =
     (let typ = Indirect R (beanType d)
      in if kindOf R typ = Struct then autoExport R typ (exports d)
         else Some (None, exports d))"

section \<open>Lookup and resolution\<close>

text \<open>
  \<^verbatim>\<open>callBeforeRefreshing\<close> and \<^verbatim>\<open>callAfterRefreshing\<close>: \<open>Some\<close> message is the panic.
\<close>

definition callAfterRefreshing :: "'w Container \<Rightarrow> string option" where
  "callAfterRefreshing c =
     (if state c = Unrefreshed then Some ''should call after Refreshing'' else None)"

definition callBeforeRefreshing :: "'w Container \<Rightarrow> string option" where
  "callBeforeRefreshing c =
     (if state c \<noteq> Unrefreshed then Some ''should call before Refreshing'' else None)"


text \<open>
  \<^verbatim>\<open>resolveBean\<close> evaluates the bean's condition, the condition may call \<^verbatim>\<open>find\<close>, and
  \<^verbatim>\<open>find\<close> calls \<^verbatim>\<open>resolveBean\<close> on the beans it matches. The three functions below
  take the resolver used for those inner calls as the argument \<open>rb\<close>; \<open>resolveBeanN\<close>
  ties the knot with a bound on the depth of nested resolutions, and \<open>None\<close> stands for
  a call that does not return within that depth (or at all, by \<open>autoExport\<close>).
\<close>

type_synonym 'w resolver =
  "ptr \<Rightarrow> 'w Container \<Rightarrow> (error option outcome \<times> 'w Container) option"

type_synonym 'w finding = "((ptr list \<times> error option) outcome \<times> 'w Container) option"

text \<open>
  The closure \<^verbatim>\<open>finder\<close> of \<^verbatim>\<open>find\<close>: a \<^verbatim>\<open>range\<close> over \<^verbatim>\<open>c.beansById\<close>. Entries are
  taken from the map as it was when the loop began; an entry deleted before it is
  reached is not produced.
\<close>

primrec finderLoop ::
  "'w resolver \<Rightarrow> (BeanDefinition \<Rightarrow> bool) \<Rightarrow> (string \<times> ptr) list \<Rightarrow> ptr list \<Rightarrow>
   'w Container \<Rightarrow> 'w finding" where
  "finderLoop rb fn [] result c = Some (Returns (result, None), c)"
| "finderLoop rb fn (e # es) result c =
     (if e \<notin> set (beansById c) then finderLoop rb fn es result c
      else if status (store c (snd e)) \<noteq> Resolving \<and> fn (store c (snd e)) then
        (case rb (snd e) c of
           None \<Rightarrow> None
         | Some (Panics m, c') \<Rightarrow> Some (Panics m, c')
         | Some (Returns (Some err), c') \<Rightarrow> Some (Returns ([], Some err), c')
         | Some (Returns None, c') \<Rightarrow>
             finderLoop rb fn es
               (if status (store c' (snd e)) \<noteq> Deleted then result @ [snd e] else result) c')
      else finderLoop rb fn es result c)"

definition find ::
  "Reflect \<Rightarrow> 'w Ext \<Rightarrow> 'w resolver \<Rightarrow> selector \<Rightarrow> 'w Container \<Rightarrow> 'w finding" where
  "find R X rb sel c =
     (case callAfterRefreshing c of
        Some m \<Rightarrow> Some (Panics m, c)
      | None \<Rightarrow>
          (case sel of
             SelNil \<Rightarrow> Some (Panics ''invalid memory address or nil pointer dereference'', c)
           | SelString s \<Rightarrow>
               (let tg = parseSingletonTag X s
                in finderLoop rb (\<lambda>b. matchBean X b (fst tg) (snd tg)) (beansById c) [] c)
           | SelValue t0 \<Rightarrow>
               if kindOf R t0 = String then Some (Panics ''interface conversion: not string'', c)
               else
                 (let t = (if kindOf R t0 = Ptr \<and> kindOf R (elemOf R t0) = Interface
                           then elemOf R t0 else t0)
                  in finderLoop rb
                       (\<lambda>b. if \<not> assignableTo R (beanType b) t then False
                            else if kindOf R t \<noteq> Interface then True
                            else t \<in> set (exports b))
                       (beansById c) [] c)))"

text \<open>\<^verbatim>\<open>b.cond.Matches(&pandora{c})\<close>, with \<open>fd\<close> the facade's lookup.\<close>

primrec evalCond ::
  "(selector \<Rightarrow> 'w Container \<Rightarrow> 'w finding) \<Rightarrow> cond \<Rightarrow> 'w Container \<Rightarrow>
   (bool outcome \<times> 'w Container) option" where
  "evalCond fd (CondReturn v) c = Some (Returns v, c)"
| "evalCond fd (CondPanic m) c = Some (Panics m, c)"
| "evalCond fd (CondFind sel k) c =
     (case fd sel c of
        None \<Rightarrow> None
      | Some (Panics m, c') \<Rightarrow> Some (Panics m, c')
      | Some (Returns r, c') \<Rightarrow> evalCond fd (k r) c')"

text \<open>
  The test \<^verbatim>\<open>cond == nil || cond.Matches(&pandora{c})\<close>, which \<^verbatim>\<open>resolveConfigers\<close>
  makes in this form and \<^verbatim>\<open>resolveBean\<close> in the negated one.
\<close>

definition condMatches ::
  "(selector \<Rightarrow> 'w Container \<Rightarrow> 'w finding) \<Rightarrow> cond option \<Rightarrow> 'w Container \<Rightarrow>
   (bool outcome \<times> 'w Container) option" where
  "condMatches fd co c =
     (case co of None \<Rightarrow> Some (Returns True, c) | Some cd \<Rightarrow> evalCond fd cd c)"

text \<open>
  The loop \<^verbatim>\<open>for t := range b.exports\<close> of \<^verbatim>\<open>resolveBean\<close>. \<^verbatim>\<open>Type.Implements\<close>
  panics when its argument is not an interface type.
\<close>

primrec indexExports ::
  "Reflect \<Rightarrow> ptr \<Rightarrow> rtype list \<Rightarrow> 'w Container \<Rightarrow> error option outcome \<times> 'w Container" where
  "indexExports R b [] c = (Returns None, c)"
| "indexExports R b (t # ts) c =
     (if kindOf R t \<noteq> Interface then
        (Panics ''reflect: non-interface type passed to Type.Implements'', c)
      else if implements R (beanType (store c b)) t then indexExports R b ts (indexByType t b c)
      else (Returns (Some (description (store c b) @ '' not implement '' @ typeString R t
                           @ '' interface'')), c))"

text \<open>
  The second half of \<^verbatim>\<open>resolveBean\<close>, from the comment that the bean meets its
  condition to the end: index by concrete type, auto-export for a struct, index by
  every export, index by name, mark Resolved.
\<close>

definition resolveBeanKept ::
  "Reflect \<Rightarrow> ptr \<Rightarrow> 'w Container \<Rightarrow> (error option outcome \<times> 'w Container) option" where
  "resolveBeanKept R b c2 =
     (let c3 = indexByType (beanType (store c2 b)) b c2
      in case autoExportBean R (store c3 b) of
           None \<Rightarrow> None
         | Some (Some err, ex) \<Rightarrow> Some (Returns (Some err), setExports b ex c3)
         | Some (None, ex) \<Rightarrow>
             (let c4 = setExports b ex c3
              in case indexExports R b (exports (store c4 b)) c4 of
                   (Panics m, c5) \<Rightarrow> Some (Panics m, c5)
                 | (Returns (Some err), c5) \<Rightarrow> Some (Returns (Some err), c5)
                 | (Returns None, c5) \<Rightarrow>
                     Some (Returns None,
                           setStatus b Resolved (indexByName (name (store c5 b)) b c5))))"

text \<open>
  \<^verbatim>\<open>resolveBean\<close>: the guard on the status, the mark Resolving, the condition (with
  the deletion when it does not hold), then the second half.
\<close>

definition resolveBeanStep ::
  "Reflect \<Rightarrow> 'w Ext \<Rightarrow> 'w resolver \<Rightarrow> 'w resolver" where
  "resolveBeanStep R X rb b c =
     (if statusOrd (status (store c b)) \<ge> statusOrd Resolving then Some (Returns None, c)
      else
        (let c1 = setStatus b Resolving c
         in case condMatches (find R X rb) (cond (store c1 b)) c1 of
              None \<Rightarrow> None
            | Some (Panics m, c2) \<Rightarrow> Some (Panics m, c2)
            | Some (Returns False, c2) \<Rightarrow>
                Some (Returns None, setStatus b Deleted (deleteById (beanID (store c2 b)) c2))
            | Some (Returns True, c2) \<Rightarrow> resolveBeanKept R b c2))"

primrec resolveBeanN :: "nat \<Rightarrow> Reflect \<Rightarrow> 'w Ext \<Rightarrow> 'w resolver" where
  "resolveBeanN 0 R X = (\<lambda>b c. None)"
| "resolveBeanN (Suc n) R X = resolveBeanStep R X (resolveBeanN n R X)"

section \<open>Registration\<close>

text \<open>
  \<^verbatim>\<open>Load\<close> and \<^verbatim>\<open>Property\<close>. The property store \<^verbatim>\<open>conf.Properties\<close> is outside
  \<^verbatim>\<open>gs.go\<close>; it is a key-value list here, and \<^verbatim>\<open>Load\<close> is given what reading the
  file produced.
\<close>

definition Load ::
  "error + (string \<times> string) list \<Rightarrow> 'w Container \<Rightarrow> error option outcome \<times> 'w Container" where
  "Load file c =
     (case callBeforeRefreshing c of
        Some m \<Rightarrow> (Panics m, c)
      | None \<Rightarrow>
          (case file of
             Inl err \<Rightarrow> (Returns (Some err), c)
           | Inr kvs \<Rightarrow> (Returns None, c\<lparr>p := p c @ kvs\<rparr>)))"

definition Property :: "string \<Rightarrow> string \<Rightarrow> 'w Container \<Rightarrow> unit outcome \<times> 'w Container" where
  "Property key v c =
     (case callBeforeRefreshing c of
        Some m \<Rightarrow> (Panics m, c)
      | None \<Rightarrow> (Returns (), c\<lparr>p := p c @ [(key, v)]\<rparr>))"

definition Register :: "ptr \<Rightarrow> 'w Container \<Rightarrow> ptr outcome \<times> 'w Container" where
  "Register b c =
     (case callBeforeRefreshing c of
        Some m \<Rightarrow> (Panics m, c)
      | None \<Rightarrow> (Returns b, c\<lparr>beans := beans c @ [b]\<rparr>))"

text \<open>
  \<^verbatim>\<open>Object\<close> and \<^verbatim>\<open>Provide\<close> build the descriptor with \<^verbatim>\<open>NewBean\<close>, which is outside
  \<^verbatim>\<open>gs.go\<close>: the argument is what \<^verbatim>\<open>NewBean\<close> does, a panic or the new pointer with the
  descriptor stored behind it.
\<close>

definition Object ::
  "(ptr \<times> BeanDefinition) outcome \<Rightarrow> 'w Container \<Rightarrow> ptr outcome \<times> 'w Container" where
  "Object newBean c =
     (case callBeforeRefreshing c of
        Some m \<Rightarrow> (Panics m, c)
      | None \<Rightarrow>
          (case newBean of
             Panics m \<Rightarrow> (Panics m, c)
           | Returns (b, d) \<Rightarrow> Register b (c\<lparr>store := (store c)(b := d)\<rparr>)))"

definition Provide ::
  "(ptr \<times> BeanDefinition) outcome \<Rightarrow> 'w Container \<Rightarrow> ptr outcome \<times> 'w Container" where
  "Provide newBean c =
     (case callBeforeRefreshing c of
        Some m \<Rightarrow> (Panics m, c)
      | None \<Rightarrow>
          (case newBean of
             Panics m \<Rightarrow> (Panics m, c)
           | Returns (b, d) \<Rightarrow> Register b (c\<lparr>store := (store c)(b := d)\<rparr>)))"

text \<open>
  \<^verbatim>\<open>Config\<close>. The three flags are \<^verbatim>\<open>util.IsFuncType\<close>, \<^verbatim>\<open>util.ReturnNothing\<close> and
  \<^verbatim>\<open>util.ReturnOnlyError\<close> of the function's type, and \<open>g\<close> is the configer that
  \<^verbatim>\<open>arg.Bind\<close> makes of the function.
\<close>

definition Config ::
  "bool \<Rightarrow> bool \<Rightarrow> bool \<Rightarrow> 'w Configer \<Rightarrow> 'w Container \<Rightarrow> unit outcome \<times> 'w Container" where
  "Config isFuncType returnNothing returnOnlyError g c =
     (case callBeforeRefreshing c of
        Some m \<Rightarrow> (Panics m, c)
      | None \<Rightarrow>
          if \<not> isFuncType then (Panics ''xxx'', c)
          else if \<not> returnNothing \<and> \<not> returnOnlyError then
            (Panics ''fn should be func() or func()error'', c)
          else (Returns (), c\<lparr>configers := configers c @ [g]\<rparr>))"

text \<open>
  \<^verbatim>\<open>New\<close> without options. With \<^verbatim>\<open>OpenPandora\<close> the result is this container after
  \<open>Object\<close> of the facade bean.
\<close>

definition New :: "(ptr \<Rightarrow> BeanDefinition) \<Rightarrow> 'w Container" where
  "New heap =
     \<lparr>p = [], state = Unrefreshed, wg = 0, cancelled = 0, store = heap, beans = [],
      beansById = [], beansByName = (\<lambda>n. []), beansByType = (\<lambda>t. []),
      configers = [], configerList = [], destroyerList = []\<rparr>"

section \<open>Refresh\<close>

primrec registerBeansFrom :: "ptr list \<Rightarrow> 'w Container \<Rightarrow> unit outcome \<times> 'w Container" where
  "registerBeansFrom [] c = (Returns (), c)"
| "registerBeansFrom (b # bs) c =
     (case map_of (beansById c) (beanID (store c b)) of
        Some d \<Rightarrow>
          (Panics (''found duplicate beans ['' @ description (store c b) @ ''] [''
                   @ description (store c d) @ '']''), c)
      | None \<Rightarrow>
          registerBeansFrom bs (c\<lparr>beansById := beansById c @ [(beanID (store c b), b)]\<rparr>))"

definition registerBeans :: "'w Container \<Rightarrow> unit outcome \<times> 'w Container" where
  "registerBeans c = registerBeansFrom (beans c) c"

primrec resolveConfigersFrom ::
  "nat \<Rightarrow> Reflect \<Rightarrow> 'w Ext \<Rightarrow> 'w Configer list \<Rightarrow> 'w Container \<Rightarrow>
   (unit outcome \<times> 'w Container) option" where
  "resolveConfigersFrom n R X [] c = Some (Returns (), c)"
| "resolveConfigersFrom n R X (g # gs) c =
     (case condMatches (find R X (resolveBeanN n R X)) (cfgCond g) c of
        None \<Rightarrow> None
      | Some (Panics m, c') \<Rightarrow> Some (Panics m, c')
      | Some (Returns v, c') \<Rightarrow>
          resolveConfigersFrom n R X gs
            (if v then c'\<lparr>configerList := configerList c' @ [g]\<rparr> else c'))"

definition resolveConfigers ::
  "nat \<Rightarrow> Reflect \<Rightarrow> 'w Ext \<Rightarrow> 'w Container \<Rightarrow> (unit outcome \<times> 'w Container) option" where
  "resolveConfigers n R X c =
     (case resolveConfigersFrom n R X (configers c) c of
        None \<Rightarrow> None
      | Some (Panics m, c') \<Rightarrow> Some (Panics m, c')
      | Some (Returns u, c') \<Rightarrow>
          Some (Returns (), c'\<lparr>configerList := sortConfigers X (configerList c')\<rparr>))"

text \<open>
  \<^verbatim>\<open>resolveBeans\<close>: a \<^verbatim>\<open>range\<close> over \<^verbatim>\<open>c.beansById\<close>, in which an entry deleted
  before it is reached is not produced.
\<close>

primrec resolveBeansFrom ::
  "nat \<Rightarrow> Reflect \<Rightarrow> 'w Ext \<Rightarrow> (string \<times> ptr) list \<Rightarrow> 'w Container \<Rightarrow>
   (error option outcome \<times> 'w Container) option" where
  "resolveBeansFrom n R X [] c = Some (Returns None, c)"
| "resolveBeansFrom n R X (e # es) c =
     (if e \<notin> set (beansById c) then resolveBeansFrom n R X es c
      else case resolveBeanN n R X (snd e) c of
             None \<Rightarrow> None
           | Some (Panics m, c') \<Rightarrow> Some (Panics m, c')
           | Some (Returns (Some err), c') \<Rightarrow> Some (Returns (Some err), c')
           | Some (Returns None, c') \<Rightarrow> resolveBeansFrom n R X es c')"

definition resolveBeans ::
  "nat \<Rightarrow> Reflect \<Rightarrow> 'w Ext \<Rightarrow> 'w Container \<Rightarrow> (error option outcome \<times> 'w Container) option" where
  "resolveBeans n R X c = resolveBeansFrom n R X (beansById c) c"

primrec runConfigersFrom :: "'w Configer list \<Rightarrow> 'w \<Rightarrow> error option outcome \<times> 'w" where
  "runConfigersFrom [] w = (Returns None, w)"
| "runConfigersFrom (g # gs) w =
     (case cfgCall g w of
        (Panics m, w') \<Rightarrow> (Panics m, w')
      | (Returns (Some err), w') \<Rightarrow> (Returns (Some err), w')
      | (Returns None, w') \<Rightarrow> runConfigersFrom gs w')"

definition runConfigers :: "'w Container \<Rightarrow> 'w \<Rightarrow> error option outcome \<times> 'w" where
  "runConfigers c w = runConfigersFrom (configerList c) w"

text \<open>
  \<^verbatim>\<open>wireBeans\<close> hands every entry of \<^verbatim>\<open>c.beansById\<close> to \<^verbatim>\<open>assembly.wireBean\<close>. The
  third component lists the pointers handed over, in order. The injection mechanism
  works on the assembly; it finds the indices complete, since \<^verbatim>\<open>resolveBeans\<close> has
  returned.
\<close>

primrec wireBeansFrom ::
  "'w Ext \<Rightarrow> (string \<times> ptr) list \<Rightarrow> 'w \<Rightarrow> error option outcome \<times> 'w \<times> ptr list" where
  "wireBeansFrom X [] w = (Returns None, w, [])"
| "wireBeansFrom X (e # es) w =
     (case wireBean X (snd e) w of
        (Panics m, w') \<Rightarrow> (Panics m, w', [snd e])
      | (Returns (Some err), w') \<Rightarrow> (Returns (Some err), w', [snd e])
      | (Returns None, w') \<Rightarrow>
          (case wireBeansFrom X es w' of
             (out, w'', passed) \<Rightarrow> (out, w'', snd e # passed)))"

definition wireBeans ::
  "'w Ext \<Rightarrow> 'w Container \<Rightarrow> 'w \<Rightarrow> error option outcome \<times> 'w \<times> ptr list" where
  "wireBeans X c w = wireBeansFrom X (beansById c) w"

text \<open>
  \<^verbatim>\<open>Refresh\<close>. \<^verbatim>\<open>util.Panic(err).When(err != nil)\<close> turns a returned error into a
  panic. The deferred log of the wiring path is left out.
\<close>

definition Refresh ::
  "nat \<Rightarrow> Reflect \<Rightarrow> 'w Ext \<Rightarrow> 'w Container \<Rightarrow> 'w \<Rightarrow> (unit outcome \<times> 'w Container \<times> 'w) option" where
  "Refresh n R X c w =
     (if state c \<noteq> Unrefreshed then Some (Panics ''already refreshed'', c, w)
      else
        (let c1 = c\<lparr>state := Refreshing\<rparr>
         in case registerBeans c1 of
              (Panics m, c2) \<Rightarrow> Some (Panics m, c2, w)
            | (Returns u, c2) \<Rightarrow>
                (case resolveConfigers n R X c2 of
                   None \<Rightarrow> None
                 | Some (Panics m, c3) \<Rightarrow> Some (Panics m, c3, w)
                 | Some (Returns u, c3) \<Rightarrow>
                     (case resolveBeans n R X c3 of
                        None \<Rightarrow> None
                      | Some (Panics m, c4) \<Rightarrow> Some (Panics m, c4, w)
                      | Some (Returns (Some err), c4) \<Rightarrow> Some (Panics err, c4, w)
                      | Some (Returns None, c4) \<Rightarrow>
                          (case runConfigers c4 w of
                             (Panics m, w1) \<Rightarrow> Some (Panics m, c4, w1)
                           | (Returns (Some err), w1) \<Rightarrow> Some (Panics err, c4, w1)
                           | (Returns None, w1) \<Rightarrow>
                               (case wireBeans X c4 w1 of
                                  (Panics m, w2, passed) \<Rightarrow> Some (Panics m, c4, w2)
                                | (Returns (Some err), w2, passed) \<Rightarrow> Some (Panics err, c4, w2)
                                | (Returns None, w2, passed) \<Rightarrow>
                                    Some (Returns (),
                                          c4\<lparr>destroyerList := sortDestroyers X w2,
                                             state := Refreshed\<rparr>, w2)))))))"

section \<open>Supervised goroutines and shutdown\<close>

text \<open>
  \<^verbatim>\<open>Go\<close> adds one to the wait group and starts the goroutine, whose deferred
  \<^verbatim>\<open>c.wg.Done()\<close> takes the one away when the function returns or panics.
\<close>

definition Go :: "'w Container \<Rightarrow> 'w Container" where
  "Go c = c\<lparr>wg := wg c + 1\<rparr>"

text \<open>
  While \<^verbatim>\<open>Close\<close> sits in \<^verbatim>\<open>c.wg.Wait()\<close> the other goroutines go on: a supervised
  one works on the beans or ends, or somebody calls \<^verbatim>\<open>Go\<close>. What they do is an input,
  the list of these events in the order in which they take place. \<^verbatim>\<open>Wait\<close> returns at
  the first moment the counter is zero, leaving the remaining events and the world as
  the events before have made it; when the events run out with the counter above zero
  it never returns, which is \<open>None\<close>.
\<close>

datatype 'w taskEvent = TaskSpawned | TaskExited | TaskStep "'w \<Rightarrow> 'w"

primrec wgWait :: "'w taskEvent list \<Rightarrow> nat \<Rightarrow> 'w \<Rightarrow> ('w taskEvent list \<times> 'w) option" where
  "wgWait [] n w = (if n = 0 then Some ([], w) else None)"
| "wgWait (e # es) n w =
     (if n = 0 then Some (e # es, w)
      else (case e of
              TaskSpawned \<Rightarrow> wgWait es (n + 1) w
            | TaskExited \<Rightarrow> wgWait es (n - 1) w
            | TaskStep f \<Rightarrow> wgWait es n (f w)))"

text \<open>The counter and the world after a list of events.\<close>

primrec wgAfter :: "'w taskEvent list \<Rightarrow> nat \<Rightarrow> nat" where
  "wgAfter [] n = n"
| "wgAfter (e # es) n =
     wgAfter es (case e of TaskSpawned \<Rightarrow> n + 1 | TaskExited \<Rightarrow> n - 1 | TaskStep f \<Rightarrow> n)"

primrec worldAfter :: "'w taskEvent list \<Rightarrow> 'w \<Rightarrow> 'w" where
  "worldAfter [] w = w"
| "worldAfter (e # es) w =
     worldAfter es (case e of TaskSpawned \<Rightarrow> w | TaskExited \<Rightarrow> w | TaskStep f \<Rightarrow> f w)"

text \<open>
  \<^verbatim>\<open>runDestroyers\<close> and \<^verbatim>\<open>Close\<close>. A supervised goroutine runs \<^verbatim>\<open>fn(c.ctx)\<close>, so
  what the goroutines do depends on the context: \<open>tasks\<close> gives their events according
  to whether the context is cancelled when \<^verbatim>\<open>Wait\<close> begins. The result of \<open>Close\<close> is
  what \<^verbatim>\<open>runDestroyers\<close> reports, with the container and the world it leaves.
\<close>

definition runDestroyers ::
  "'w Container \<Rightarrow> 'w \<Rightarrow> unit outcome \<times> 'w \<times> (ptr \<times> error option) list \<times> error list" where
  "runDestroyers c w = runDestroyersFrom (destroyerList c) w"

definition Close ::
  "'w Container \<Rightarrow> 'w \<Rightarrow> (bool \<Rightarrow> 'w taskEvent list) \<Rightarrow>
   (unit outcome \<times> 'w Container \<times> 'w \<times> (ptr \<times> error option) list \<times> error list) option" where
  "Close c w tasks =
     (case callAfterRefreshing c of
        Some m \<Rightarrow> Some (Panics m, c, w, [], [])
      | None \<Rightarrow>
          (let c1 = c\<lparr>cancelled := cancelled c + 1\<rparr>
           in case wgWait (tasks (0 < cancelled c1)) (wg c1) w of
                None \<Rightarrow> None
              | Some (rest, w1) \<Rightarrow>
                  (let c2 = c1\<lparr>wg := 0\<rparr>
                   in case runDestroyers c2 w1 of
                        (out, w', calls, logged) \<Rightarrow> Some (out, c2, w', calls, logged))))"

section \<open>Relations between containers used in the proofs\<close>

text \<open>
  \<open>evolves c c'\<close> bounds what a completed call may have done to the container: a
  descriptor that was past Default is untouched, the registration data of every
  descriptor is unchanged, a pointer new in a lookup index belongs to a descriptor that
  left Default during the call, and the identity index only lost entries.
  \<open>onlyAt b c c'\<close> bounds the straight-line code of \<^verbatim>\<open>resolveBean\<close> working on \<open>b\<close>.
\<close>

definition evolves :: "'w Container \<Rightarrow> 'w Container \<Rightarrow> bool" where
  "evolves c c' \<longleftrightarrow>
     (\<forall>q. status (store c q) \<noteq> Default \<longrightarrow> store c' q = store c q) \<and>
     (\<forall>q. beanID (store c' q) = beanID (store c q) \<and> name (store c' q) = name (store c q) \<and>
          beanType (store c' q) = beanType (store c q) \<and> cond (store c' q) = cond (store c q) \<and>
          description (store c' q) = description (store c q)) \<and>
     (\<forall>q t. q \<in> set (beansByType c' t) \<longrightarrow>
          q \<in> set (beansByType c t) \<or> (status (store c q) = Default \<and> status (store c' q) \<noteq> Default)) \<and>
     (\<forall>q n. q \<in> set (beansByName c' n) \<longrightarrow>
          q \<in> set (beansByName c n) \<or> (status (store c q) = Default \<and> status (store c' q) \<noteq> Default)) \<and>
     (\<forall>t. set (beansByType c t) \<subseteq> set (beansByType c' t)) \<and>
     (\<forall>n. set (beansByName c n) \<subseteq> set (beansByName c' n)) \<and>
     (\<forall>q. set (exports (store c q)) \<subseteq> set (exports (store c' q))) \<and>
     (\<exists>P. beansById c' = filter P (beansById c))"

definition onlyAt :: "ptr \<Rightarrow> 'w Container \<Rightarrow> 'w Container \<Rightarrow> bool" where
  "onlyAt b c c' \<longleftrightarrow>
     (\<forall>q. q \<noteq> b \<longrightarrow> store c' q = store c q) \<and>
     beanID (store c' b) = beanID (store c b) \<and> name (store c' b) = name (store c b) \<and>
     beanType (store c' b) = beanType (store c b) \<and> cond (store c' b) = cond (store c b) \<and>
     description (store c' b) = description (store c b) \<and>
     (\<forall>q t. q \<in> set (beansByType c' t) \<longrightarrow> q \<in> set (beansByType c t) \<or> q = b) \<and>
     (\<forall>q n. q \<in> set (beansByName c' n) \<longrightarrow> q \<in> set (beansByName c n) \<or> q = b) \<and>
     (\<forall>t. set (beansByType c t) \<subseteq> set (beansByType c' t)) \<and>
     (\<forall>n. set (beansByName c n) \<subseteq> set (beansByName c' n)) \<and>
     set (exports (store c b)) \<subseteq> set (exports (store c' b)) \<and>
     (\<exists>P. beansById c' = filter P (beansById c))"

definition rbOK :: "'w resolver \<Rightarrow> bool" where
  "rbOK rb \<longleftrightarrow> (\<forall>b c out c'. rb b c = Some (out, c') \<longrightarrow> evolves c c')"


text \<open>
  A container as \<^verbatim>\<open>registerBeans\<close> leaves it and resolution keeps it: every entry of
  the identity index is filed under the identity of its descriptor, no identity occurs
  twice, and a descriptor still at Default is in no lookup index.
\<close>

definition consistent :: "'w Container \<Rightarrow> bool" where
  "consistent c \<longleftrightarrow>
     (\<forall>e \<in> set (beansById c). fst e = beanID (store c (snd e))) \<and>
     distinct (map fst (beansById c)) \<and>
     (\<forall>q. status (store c q) = Default \<longrightarrow>
          (\<forall>t. q \<notin> set (beansByType c t)) \<and> (\<forall>n. q \<notin> set (beansByName c n)))"

text \<open>Every entry that left the identity index belongs to a descriptor now Deleted.\<close>

definition kept :: "'w Container \<Rightarrow> 'w Container \<Rightarrow> bool" where
  "kept c c' \<longleftrightarrow>
     (\<forall>e \<in> set (beansById c). e \<notin> set (beansById c') \<longrightarrow> status (store c' (snd e)) = Deleted)"

text \<open>
  The containers reached from \<open>c\<close> by further calls of \<^verbatim>\<open>resolveBean\<close> and \<^verbatim>\<open>find\<close>,
  the two functions of \<^verbatim>\<open>gs.go\<close> that write to descriptors and indices once refresh has
  begun. \<^verbatim>\<open>resolveBean\<close> is unexported and its callers pass it beans taken from the
  identity index. The third rule is every other step of \<^verbatim>\<open>gs.go\<close>: the rest of
  \<^verbatim>\<open>Refresh\<close>, \<^verbatim>\<open>Close\<close> and \<^verbatim>\<open>Go\<close> write the state, the configer and destroyer
  lists, the wait group and the context, and leave descriptors and indices alone.
\<close>

inductive later :: "Reflect \<Rightarrow> 'w Ext \<Rightarrow> 'w Container \<Rightarrow> 'w Container \<Rightarrow> bool"
  for R :: Reflect and X :: "'w Ext" and c :: "'w Container" where
  later_now: "later R X c c"
| later_resolve:
    "later R X c c1 \<Longrightarrow> b \<in> snd ` set (beansById c1) \<Longrightarrow>
     resolveBeanN n R X b c1 = Some (out, c2) \<Longrightarrow> later R X c c2"
| later_find:
    "later R X c c1 \<Longrightarrow> find R X (resolveBeanN n R X) sel c1 = Some (fout, c2) \<Longrightarrow>
     later R X c c2"
| later_other:
    "later R X c c1 \<Longrightarrow> store c2 = store c1 \<Longrightarrow> beansById c2 = beansById c1 \<Longrightarrow>
     beansByName c2 = beansByName c1 \<Longrightarrow> beansByType c2 = beansByType c1 \<Longrightarrow>
     later R X c c2"

text \<open>
  What becomes of the container after some moment of the run, whatever calls are in
  progress at that moment. Once refresh has begun, \<^verbatim>\<open>gs.go\<close> writes to a descriptor
  or to an index only in \<^verbatim>\<open>resolveBean\<close>, and always for the bean being resolved:
  the mark Resolving on a bean that is Default, and every other write on a bean that is
  Resolving, the deletion coming before the bean is put in any lookup index.
  \<open>writes c c'\<close> is one such write, or a step that leaves descriptors and indices
  alone; \<open>afterwards c c'\<close> is any number of them, so it holds of the containers met
  in the rest of the calls in progress as well as in later calls.
\<close>

inductive writes :: "'w Container \<Rightarrow> 'w Container \<Rightarrow> bool" where
  writes_mark:
    "status (store c a) = Default \<Longrightarrow> writes c (setStatus a Resolving c)"
| writes_delete:
    "status (store c a) = Resolving \<Longrightarrow> \<forall>t. a \<notin> set (beansByType c t) \<Longrightarrow>
     \<forall>n. a \<notin> set (beansByName c n) \<Longrightarrow>
     writes c (setStatus a Deleted (deleteById (beanID (store c a)) c))"
| writes_type:
    "status (store c a) = Resolving \<Longrightarrow> writes c (indexByType t a c)"
| writes_exports:
    "status (store c a) = Resolving \<Longrightarrow> writes c (setExports a ex c)"
| writes_name:
    "status (store c a) = Resolving \<Longrightarrow> writes c (indexByName n a c)"
| writes_resolved:
    "status (store c a) = Resolving \<Longrightarrow> writes c (setStatus a Resolved c)"
| writes_other:
    "store c' = store c \<Longrightarrow> beansById c' = beansById c \<Longrightarrow>
     beansByName c' = beansByName c \<Longrightarrow> beansByType c' = beansByType c \<Longrightarrow> writes c c'"

definition afterwards :: "'w Container \<Rightarrow> 'w Container \<Rightarrow> bool" where
  "afterwards = rtranclp writes"

text \<open>Every descriptor that is Deleted is in none of the three indices.\<close>

definition deletedOut :: "'w Container \<Rightarrow> bool" where
  "deletedOut c \<longleftrightarrow>
     (\<forall>q. status (store c q) = Deleted \<longrightarrow>
          q \<notin> snd ` set (beansById c) \<and>
          (\<forall>t. q \<notin> set (beansByType c t)) \<and> (\<forall>n. q \<notin> set (beansByName c n)))"

text \<open>
  \<open>steady\<close> joins the two: what a completed call on a bean of the identity index does
  to a consistent container.
\<close>

definition steady :: "'w Container \<Rightarrow> 'w Container \<Rightarrow> bool" where
  "steady c c' \<longleftrightarrow> evolves c c' \<and> (consistent c \<longrightarrow> kept c c')"

definition rbKeeps :: "'w resolver \<Rightarrow> bool" where
  "rbKeeps rb \<longleftrightarrow>
     (\<forall>b c out c'. b \<in> snd ` set (beansById c) \<longrightarrow> rb b c = Some (out, c') \<longrightarrow> steady c c')"

text \<open>
  The depth that \<open>resolveBeanN\<close> needs: a nested call of \<^verbatim>\<open>resolveBean\<close> gets past
  the guard only for a bean of the identity index that is still at Default, and marks
  it Resolving at once. \<open>autoExportReturns\<close> says that \<^verbatim>\<open>autoExport\<close> comes back on the
  type of every bean, whatever exports the bean holds.
\<close>

definition numDefault :: "'w Container \<Rightarrow> nat" where
  "numDefault c = length (filter (\<lambda>e. status (store c (snd e)) = Default) (beansById c))"

definition autoExportReturns :: "Reflect \<Rightarrow> 'w Container \<Rightarrow> bool" where
  "autoExportReturns R c \<longleftrightarrow>
     (\<forall>q ex. autoExportBean R ((store c q)\<lparr>exports := ex\<rparr>) \<noteq> None)"

text \<open>
  The interfaces a struct exports in the words of the spec: the type of a field tagged
  for export, and whatever is exported by an embedded field that is a struct (or a
  pointer to one) and is tagged neither for export nor for injection.
\<close>

inductive exportsVia :: "Reflect \<Rightarrow> StructField list \<Rightarrow> rtype \<Rightarrow> bool"
  for R :: Reflect where
  exportsVia_tagged:
    "f \<in> set fs \<Longrightarrow> Lookup (tag f) ''export'' \<Longrightarrow> exportsVia R fs (fieldType f)"
| exportsVia_embedded:
    "f \<in> set fs \<Longrightarrow> \<not> Lookup (tag f) ''export'' \<Longrightarrow> anonymous f \<Longrightarrow>
     \<not> Lookup (tag f) ''inject'' \<Longrightarrow> \<not> Lookup (tag f) ''autowire'' \<Longrightarrow>
     kindOf R (Indirect R (fieldType f)) = Struct \<Longrightarrow>
     exportsVia R (fieldsOf R (Indirect R (fieldType f))) i \<Longrightarrow> exportsVia R fs i"

text \<open>
  The pairs (embedded struct, embedding struct) on which \<^verbatim>\<open>autoExport\<close> calls itself:
  the second has an anonymous field, tagged neither for export nor for injection, whose
  type is the first or a pointer to it. Go rejects a struct that contains itself by
  value and accepts one that embeds a pointer to itself, so an endless chain of
  embeddings may start from a struct.
\<close>

definition embeds :: "Reflect \<Rightarrow> (rtype \<times> rtype) set" where
  "embeds R =
     {(u, t). \<exists>f \<in> set (fieldsOf R t).
        \<not> Lookup (tag f) ''export'' \<and> anonymous f \<and> \<not> Lookup (tag f) ''inject'' \<and>
        \<not> Lookup (tag f) ''autowire'' \<and> kindOf R (Indirect R (fieldType f)) = Struct \<and>
        u = Indirect R (fieldType f)}"

text \<open>
  The misuse of the export tag in the words of the spec: a field tagged for export that
  is not of interface type or is tagged for injection as well, in the struct itself or
  in a struct reached as above.
\<close>

inductive exportFault :: "Reflect \<Rightarrow> StructField list \<Rightarrow> bool"
  for R :: Reflect where
  exportFault_tagged:
    "f \<in> set fs \<Longrightarrow> Lookup (tag f) ''export'' \<Longrightarrow>
     kindOf R (fieldType f) \<noteq> Interface \<or> Lookup (tag f) ''inject'' \<or> Lookup (tag f) ''autowire'' \<Longrightarrow>
     exportFault R fs"
| exportFault_embedded:
    "f \<in> set fs \<Longrightarrow> \<not> Lookup (tag f) ''export'' \<Longrightarrow> anonymous f \<Longrightarrow>
     \<not> Lookup (tag f) ''inject'' \<Longrightarrow> \<not> Lookup (tag f) ''autowire'' \<Longrightarrow>
     kindOf R (Indirect R (fieldType f)) = Struct \<Longrightarrow>
     exportFault R (fieldsOf R (Indirect R (fieldType f))) \<Longrightarrow> exportFault R fs"

section \<open>A sample program\<close>

text \<open>
  Types: \<open>0\<close>, \<open>1\<close>, \<open>2\<close> are structs \<^verbatim>\<open>A\<close>, \<^verbatim>\<open>B\<close>, \<^verbatim>\<open>C\<close> with \<^verbatim>\<open>A\<close> embedding
  \<^verbatim>\<open>B\<close>, \<^verbatim>\<open>B\<close> embedding \<^verbatim>\<open>C\<close> and \<^verbatim>\<open>C\<close> holding a field of interface type \<open>3\<close>
  tagged \<^verbatim>\<open>export\<close>; \<open>4\<close> is an interface that no struct implements; \<open>5\<close> is a struct
  that embeds \<^verbatim>\<open>B\<close> under an \<^verbatim>\<open>inject\<close> tag; \<open>6\<close> is a struct without fields that
  implements interface \<open>3\<close>.
\<close>

definition sampleReflect :: Reflect where
  "sampleReflect =
     \<lparr>kindOf = (\<lambda>t. if t \<in> {0, 1, 2, 5, 6} then Struct
                    else if t \<in> {3, 4} then Interface else OtherKind),
      elemOf = (\<lambda>t. t),
      fieldsOf = (\<lambda>t.
         if t = 0 then [\<lparr>fieldName = ''B'', fieldType = 1, anonymous = True, tag = []\<rparr>]
         else if t = 1 then [\<lparr>fieldName = ''C'', fieldType = 2, anonymous = True, tag = []\<rparr>]
         else if t = 2 then
           [\<lparr>fieldName = ''_'', fieldType = 3, anonymous = False, tag = [(''export'', [])]\<rparr>]
         else if t = 5 then
           [\<lparr>fieldName = ''B'', fieldType = 1, anonymous = True, tag = [(''inject'', [])]\<rparr>]
         else []),
      implements = (\<lambda>t i. i = 3 \<and> t \<in> {0, 1, 2, 5, 6}),
      assignableTo = (\<lambda>t u. t = u \<or> (u = 3 \<and> t \<in> {0, 1, 2, 5, 6})),
      typeString = (\<lambda>t. if t = 3 then ''I'' else if t = 4 then ''J'' else ''T'')\<rparr>"

definition sampleExt :: "nat list Ext" where
  "sampleExt =
     \<lparr>matchBean = (\<lambda>b tn bn. bn = [] \<or> name b = bn),
      parseSingletonTag = (\<lambda>s. ([], s)),
      sortConfigers = (\<lambda>gs. gs),
      wireBean = (\<lambda>b w. (Returns None, w @ [b])),
      sortDestroyers = (\<lambda>w. [])\<rparr>"

definition sampleBean :: "string \<Rightarrow> rtype \<Rightarrow> cond option \<Rightarrow> rtype list \<Rightarrow> BeanDefinition" where
  "sampleBean n t cd ex =
     \<lparr>beanID = n, name = n, beanType = t, cond = cd, exports = ex, status = Default,
      description = n\<rparr>"

text \<open>
  Beans: \<open>0\<close> is \<^verbatim>\<open>x\<close> of type \<^verbatim>\<open>A\<close>; \<open>1\<close> is \<^verbatim>\<open>y\<close>, active only when no bean
  named \<^verbatim>\<open>x\<close> is found; \<open>2\<close> is \<^verbatim>\<open>z\<close>, which declares the exports \<open>3\<close> and \<open>4\<close>;
  \<open>3\<close> is \<^verbatim>\<open>v\<close>, which declares the export \<open>4\<close> under a condition that is false;
  \<open>5\<close> is \<^verbatim>\<open>u\<close>, which declares the export \<open>3\<close>;
  \<open>6\<close> is \<^verbatim>\<open>t\<close>, active only when no bean named \<^verbatim>\<open>v\<close> is found;
  every other pointer holds a bean \<^verbatim>\<open>w\<close> of the field-less struct, which implements
  interface \<open>3\<close> and exports nothing.
\<close>

definition sampleHeap :: "ptr \<Rightarrow> BeanDefinition" where
  "sampleHeap q =
     (if q = 0 then sampleBean ''x'' 0 None []
      else if q = 1 then
        sampleBean ''y'' 0
          (Some (CondFind (SelString ''x'') (\<lambda>r. CondReturn (fst r = [])))) []
      else if q = 2 then sampleBean ''z'' 6 None [3, 4]
      else if q = 3 then sampleBean ''v'' 6 (Some (CondReturn False)) [4]
      else if q = 5 then sampleBean ''u'' 6 None [3]
      else if q = 6 then
        sampleBean ''t'' 6
          (Some (CondFind (SelString ''v'') (\<lambda>r. CondReturn (fst r = [])))) []
      else sampleBean ''w'' 6 None [])"

definition sampleContainer :: "nat list Container" where
  "sampleContainer =
     (New sampleHeap)\<lparr>state := Refreshing, beans := [1, 0, 2, 3, 4],
                      beansById := [(''y'', 1), (''x'', 0), (''z'', 2), (''v'', 3), (''w'', 4)]\<rparr>"

text \<open>
  The sample container with only \<^verbatim>\<open>t\<close> and \<^verbatim>\<open>v\<close> registered: resolving \<^verbatim>\<open>t\<close>
  evaluates its condition, whose lookup resolves \<^verbatim>\<open>v\<close> on demand.
\<close>

definition sampleNested :: "nat list Container" where
  "sampleNested = sampleContainer\<lparr>beans := [6, 3], beansById := [(''t'', 6), (''v'', 3)]\<rparr>"

section \<open>Shutdown order\<close>

text \<open>
  What \<^verbatim>\<open>runDestroyers\<close> does, call by call. The calls that came back are made on the
  entries of the list from the front, each on the world its predecessor left and each
  recorded with what it returned; the errors logged are the errors returned, in that order.
  The loop ends past the last entry, or at the first entry that panics.
\<close>

lemma runDestroyersFrom_trace:
  "runDestroyersFrom ds w = (out, w', calls, logged) \<Longrightarrow>
   \<exists>ws. length ws = Suc (length calls) \<and> ws ! 0 = w \<and> length calls \<le> length ds \<and>
        (\<forall>k < length calls.
            run (ds ! k) (ws ! k) = (Returns (snd (calls ! k)), ws ! Suc k) \<and>
            fst (calls ! k) = dbean (ds ! k)) \<and>
        logged = List.map_filter snd calls \<and>
        (case out of
           Returns u \<Rightarrow> length calls = length ds \<and> w' = ws ! length calls
         | Panics m \<Rightarrow> length calls < length ds \<and>
             run (ds ! length calls) (ws ! length calls) = (Panics m, w'))"
proof (induction ds arbitrary: w out w' calls logged)
  case Nil
  then show ?case by (intro exI [of _ "[w]"]) (auto simp: List.map_filter_simps)
next
  case (Cons d ds)
  show ?case
  proof (cases "run d w")
    case (Pair o1 w1)
    show ?thesis
    proof (cases o1)
      case (Panics m)
      with Pair Cons.prems show ?thesis
        by (intro exI [of _ "[w]"]) (auto simp: List.map_filter_simps)
    next
      case (Returns err)
      obtain out2 w2 calls2 logged2 where r: "runDestroyersFrom ds w1 = (out2, w2, calls2, logged2)"
        by (cases "runDestroyersFrom ds w1") auto
      from Cons.IH [OF r] obtain ws where ws: "length ws = Suc (length calls2)" "ws ! 0 = w1"
        "length calls2 \<le> length ds"
        "\<forall>k < length calls2.
            run (ds ! k) (ws ! k) = (Returns (snd (calls2 ! k)), ws ! Suc k) \<and>
            fst (calls2 ! k) = dbean (ds ! k)"
        "logged2 = List.map_filter snd calls2"
        "case out2 of
           Returns u \<Rightarrow> length calls2 = length ds \<and> w2 = ws ! length calls2
         | Panics m \<Rightarrow> length calls2 < length ds \<and>
             run (ds ! length calls2) (ws ! length calls2) = (Panics m, w2)"
        by blast
      from Cons.prems Pair Returns r
      have res: "out = out2" "w' = w2" "calls = (dbean d, err) # calls2"
        "logged = (case err of None \<Rightarrow> [] | Some e \<Rightarrow> [e]) @ logged2"
        by simp_all
      have a: "length (w # ws) = Suc (length calls)" using ws(1) res(3) by simp
      have b: "(w # ws) ! 0 = w" by simp
      have c: "length calls \<le> length (d # ds)" using ws(3) res(3) by simp
      have e: "\<forall>k < length calls.
            run ((d # ds) ! k) ((w # ws) ! k) = (Returns (snd (calls ! k)), (w # ws) ! Suc k) \<and>
            fst (calls ! k) = dbean ((d # ds) ! k)"
      proof (intro allI impI)
        fix k assume k: "k < length calls"
        show "run ((d # ds) ! k) ((w # ws) ! k) = (Returns (snd (calls ! k)), (w # ws) ! Suc k) \<and>
            fst (calls ! k) = dbean ((d # ds) ! k)"
        proof (cases k)
          case 0
          with Pair Returns res(3) ws(2) show ?thesis by simp
        next
          case (Suc j)
          with k res(3) ws(4) show ?thesis by simp
        qed
      qed
      have f: "logged = List.map_filter snd calls"
        using res(3,4) ws(5) by (cases err) (simp_all add: List.map_filter_simps)
      have g: "case out of
           Returns u \<Rightarrow> length calls = length (d # ds) \<and> w' = (w # ws) ! length calls
         | Panics m \<Rightarrow> length calls < length (d # ds) \<and>
             run ((d # ds) ! length calls) ((w # ws) ! length calls) = (Panics m, w')"
        using ws(6) res(1,2,3) by (cases out2) simp_all
      from a b c e f g show ?thesis by (intro exI [of _ "w # ws"]) blast
    qed
  qed
qed

text \<open>
  C7. During shutdown the destroyer entries are run one after the other in the order of
  the destroyer list, and the failure of one of them is logged and keeps no later entry
  from running. For every destroyer list and every behaviour of its entries: the calls
  made are calls of the entries of the list from the front, in list order, each on the
  world left by the call before it, and each recorded with the very result it returned;
  the errors logged are exactly the errors returned, in that order; and the loop stops
  before the end of the list only at an entry that panics, so when it returns every
  entry of the list has been run.
\<close>

theorem runDestroyers_runs_every_entry:
  assumes "runDestroyers c w = (out, w', calls, logged)"
  shows "\<exists>ws. length ws = Suc (length calls) \<and> ws ! 0 = w \<and>
           length calls \<le> length (destroyerList c) \<and>
           (\<forall>k < length calls.
               run (destroyerList c ! k) (ws ! k) = (Returns (snd (calls ! k)), ws ! Suc k) \<and>
               fst (calls ! k) = dbean (destroyerList c ! k)) \<and>
           logged = List.map_filter snd calls \<and>
           (case out of
              Returns u \<Rightarrow> length calls = length (destroyerList c) \<and> w' = ws ! length calls
            | Panics m \<Rightarrow> length calls < length (destroyerList c) \<and>
                run (destroyerList c ! length calls) (ws ! length calls) = (Panics m, w'))"
  using runDestroyersFrom_trace [of "destroyerList c" w out w' calls logged] assms
  by (simp add: runDestroyers_def)

theorem runDestroyers_runs_every_entry_witness:
  "runDestroyers
     (sampleContainer\<lparr>destroyerList :=
        [\<lparr>dbean = 1, run = (\<lambda>w. (Returns (Some ''close failed''), w @ [1]))\<rparr>,
         \<lparr>dbean = 2, run = (\<lambda>w. (Returns None, w @ [2]))\<rparr>]\<rparr>) []
   = (Returns (), [1, 2], [(1, Some ''close failed''), (2, None)], [''close failed'']) \<and>
   (\<exists>ws. length ws = 3 \<and> ws ! 0 = [] \<and> ws ! 1 = [1] \<and> ws ! 2 = [1, 2::nat])"
proof -
  let ?ds = "[\<lparr>dbean = 1, run = (\<lambda>w. (Returns (Some ''close failed''), w @ [1::nat]))\<rparr>,
      \<lparr>dbean = 2, run = (\<lambda>w. (Returns None, w @ [2]))\<rparr>]"
  let ?c = "sampleContainer\<lparr>destroyerList := ?ds\<rparr>"
  have run: "runDestroyers ?c [] =
      (Returns (), [1, 2], [(1, Some ''close failed''), (2, None)], [''close failed''])"
    by (simp add: runDestroyers_def)
  from runDestroyers_runs_every_entry [OF run]
  obtain ws :: "nat list list" where ws: "length ws = Suc (length [(1::nat, Some ''close failed''), (2::nat, None)])"
    "ws ! 0 = []"
    and k: "\<forall>k < length [(1::nat, Some ''close failed''), (2::nat, None)].
      run (destroyerList ?c ! k) (ws ! k)
        = (Returns (snd ([(1::nat, Some ''close failed''), (2, None)] ! k)), ws ! Suc k) \<and>
      fst ([(1::nat, Some ''close failed''), (2::nat, None)] ! k) = dbean (destroyerList ?c ! k)"
    by blast
  from k [rule_format, of 0] ws(2) have w1: "ws ! 1 = [1]" by simp
  from k [rule_format, of 1] w1 have w2: "ws ! 2 = [1, 2]" by (simp add: numeral_2_eq_2)
  from ws(1) have l: "length ws = 3" by simp
  from run l ws(2) w1 w2 show ?thesis by blast
qed

section \<open>Frame of a resolution\<close>

lemma evolves_same: "evolves c c' \<Longrightarrow> status (store c q) \<noteq> Default \<Longrightarrow> store c' q = store c q"
  unfolding evolves_def by blast

lemma evolves_static:
  "evolves c c' \<Longrightarrow>
   beanID (store c' q) = beanID (store c q) \<and> name (store c' q) = name (store c q) \<and>
   beanType (store c' q) = beanType (store c q) \<and> cond (store c' q) = cond (store c q) \<and>
   description (store c' q) = description (store c q)"
  unfolding evolves_def by blast

lemma evolves_newType:
  "evolves c c' \<Longrightarrow> q \<in> set (beansByType c' t) \<Longrightarrow>
   q \<in> set (beansByType c t) \<or> (status (store c q) = Default \<and> status (store c' q) \<noteq> Default)"
  unfolding evolves_def by blast

lemma evolves_newName:
  "evolves c c' \<Longrightarrow> q \<in> set (beansByName c' n) \<Longrightarrow>
   q \<in> set (beansByName c n) \<or> (status (store c q) = Default \<and> status (store c' q) \<noteq> Default)"
  unfolding evolves_def by blast

lemma evolves_growType: "evolves c c' \<Longrightarrow> q \<in> set (beansByType c t) \<Longrightarrow> q \<in> set (beansByType c' t)"
  unfolding evolves_def by blast

lemma evolves_growName: "evolves c c' \<Longrightarrow> q \<in> set (beansByName c n) \<Longrightarrow> q \<in> set (beansByName c' n)"
  unfolding evolves_def by blast

lemma evolves_growExports:
  "evolves c c' \<Longrightarrow> t \<in> set (exports (store c q)) \<Longrightarrow> t \<in> set (exports (store c' q))"
  unfolding evolves_def by blast

lemma evolves_byId: "evolves c c' \<Longrightarrow> \<exists>P. beansById c' = filter P (beansById c)"
  unfolding evolves_def by blast

lemma evolvesI:
  assumes "\<And>q. status (store c q) \<noteq> Default \<Longrightarrow> store c' q = store c q"
    and "\<And>q. beanID (store c' q) = beanID (store c q) \<and> name (store c' q) = name (store c q) \<and>
          beanType (store c' q) = beanType (store c q) \<and> cond (store c' q) = cond (store c q) \<and>
          description (store c' q) = description (store c q)"
    and "\<And>q t. q \<in> set (beansByType c' t) \<Longrightarrow>
          q \<in> set (beansByType c t) \<or> (status (store c q) = Default \<and> status (store c' q) \<noteq> Default)"
    and "\<And>q n. q \<in> set (beansByName c' n) \<Longrightarrow>
          q \<in> set (beansByName c n) \<or> (status (store c q) = Default \<and> status (store c' q) \<noteq> Default)"
    and "\<And>q t. q \<in> set (beansByType c t) \<Longrightarrow> q \<in> set (beansByType c' t)"
    and "\<And>q n. q \<in> set (beansByName c n) \<Longrightarrow> q \<in> set (beansByName c' n)"
    and "\<And>q t. t \<in> set (exports (store c q)) \<Longrightarrow> t \<in> set (exports (store c' q))"
    and "\<exists>P. beansById c' = filter P (beansById c)"
  shows "evolves c c'"
  unfolding evolves_def using assms by (intro conjI allI impI subsetI) blast+

lemma filter_twice: 
  "ys = filter P xs \<Longrightarrow> zs = filter Q ys \<Longrightarrow> \<exists>P'. zs = filter P' xs"
  by (rule exI [of _ "\<lambda>x. P x \<and> Q x"]) simp

lemma evolves_refl: "evolves c c"
  by (rule evolvesI) (auto intro: exI [of _ "\<lambda>_. True"])

lemma evolves_trans:
  assumes a: "evolves c c'" and b: "evolves c' c''"
  shows "evolves c c''"
proof (rule evolvesI)
  fix q assume "status (store c q) \<noteq> Default"
  with evolves_same [OF a, of q] evolves_same [OF b, of q] show "store c'' q = store c q"
    by simp
next
  fix q
  from evolves_static [OF a, of q] evolves_static [OF b, of q]
  show "beanID (store c'' q) = beanID (store c q) \<and> name (store c'' q) = name (store c q) \<and>
          beanType (store c'' q) = beanType (store c q) \<and> cond (store c'' q) = cond (store c q) \<and>
          description (store c'' q) = description (store c q)" by simp
next
  fix q t assume "q \<in> set (beansByType c'' t)"
  from evolves_newType [OF b this] evolves_newType [OF a, of q t]
    evolves_same [OF a, of q] evolves_same [OF b, of q]
  show "q \<in> set (beansByType c t) \<or> (status (store c q) = Default \<and> status (store c'' q) \<noteq> Default)"
    by metis
next
  fix q n assume "q \<in> set (beansByName c'' n)"
  from evolves_newName [OF b this] evolves_newName [OF a, of q n]
    evolves_same [OF a, of q] evolves_same [OF b, of q]
  show "q \<in> set (beansByName c n) \<or> (status (store c q) = Default \<and> status (store c'' q) \<noteq> Default)"
    by metis
next
  fix q t assume "q \<in> set (beansByType c t)"
  then show "q \<in> set (beansByType c'' t)" using a b by (blast dest: evolves_growType)
next
  fix q n assume "q \<in> set (beansByName c n)"
  then show "q \<in> set (beansByName c'' n)" using a b by (blast dest: evolves_growName)
next
  fix q t assume "t \<in> set (exports (store c q))"
  then show "t \<in> set (exports (store c'' q))" using a b by (blast dest: evolves_growExports)
next
  from evolves_byId [OF a] evolves_byId [OF b]
  show "\<exists>P. beansById c'' = filter P (beansById c)" by (blast dest: filter_twice)
qed

lemma onlyAt_other: "onlyAt b c c' \<Longrightarrow> q \<noteq> b \<Longrightarrow> store c' q = store c q"
  unfolding onlyAt_def by blast

lemma onlyAt_static:
  "onlyAt b c c' \<Longrightarrow>
   beanID (store c' q) = beanID (store c q) \<and> name (store c' q) = name (store c q) \<and>
   beanType (store c' q) = beanType (store c q) \<and> cond (store c' q) = cond (store c q) \<and>
   description (store c' q) = description (store c q)"
  unfolding onlyAt_def by (cases "q = b") simp_all

lemma onlyAt_newType:
  "onlyAt b c c' \<Longrightarrow> q \<in> set (beansByType c' t) \<Longrightarrow> q \<in> set (beansByType c t) \<or> q = b"
  unfolding onlyAt_def by blast

lemma onlyAt_newName:
  "onlyAt b c c' \<Longrightarrow> q \<in> set (beansByName c' n) \<Longrightarrow> q \<in> set (beansByName c n) \<or> q = b"
  unfolding onlyAt_def by blast

lemma onlyAt_growType: "onlyAt b c c' \<Longrightarrow> q \<in> set (beansByType c t) \<Longrightarrow> q \<in> set (beansByType c' t)"
  unfolding onlyAt_def by blast

lemma onlyAt_growName: "onlyAt b c c' \<Longrightarrow> q \<in> set (beansByName c n) \<Longrightarrow> q \<in> set (beansByName c' n)"
  unfolding onlyAt_def by blast

lemma onlyAt_growExports:
  "onlyAt b c c' \<Longrightarrow> t \<in> set (exports (store c q)) \<Longrightarrow> t \<in> set (exports (store c' q))"
  unfolding onlyAt_def by (cases "q = b") auto

lemma onlyAt_byId: "onlyAt b c c' \<Longrightarrow> \<exists>P. beansById c' = filter P (beansById c)"
  unfolding onlyAt_def by blast

lemma onlyAtI:
  assumes "\<And>q. q \<noteq> b \<Longrightarrow> store c' q = store c q"
    and "beanID (store c' b) = beanID (store c b) \<and> name (store c' b) = name (store c b) \<and>
         beanType (store c' b) = beanType (store c b) \<and> cond (store c' b) = cond (store c b) \<and>
         description (store c' b) = description (store c b)"
    and "\<And>q t. q \<in> set (beansByType c' t) \<Longrightarrow> q \<in> set (beansByType c t) \<or> q = b"
    and "\<And>q n. q \<in> set (beansByName c' n) \<Longrightarrow> q \<in> set (beansByName c n) \<or> q = b"
    and "\<And>q t. q \<in> set (beansByType c t) \<Longrightarrow> q \<in> set (beansByType c' t)"
    and "\<And>q n. q \<in> set (beansByName c n) \<Longrightarrow> q \<in> set (beansByName c' n)"
    and "\<And>t. t \<in> set (exports (store c b)) \<Longrightarrow> t \<in> set (exports (store c' b))"
    and "\<exists>P. beansById c' = filter P (beansById c)"
  shows "onlyAt b c c'"
  unfolding onlyAt_def using assms by (intro conjI allI impI subsetI) blast+

lemma onlyAt_refl: "onlyAt b c c"
  by (rule onlyAtI) (auto intro: exI [of _ "\<lambda>_. True"])

lemma onlyAt_trans:
  assumes a: "onlyAt b c c'" and b: "onlyAt b c' c''"
  shows "onlyAt b c c''"
proof (rule onlyAtI)
  fix q assume "q \<noteq> b"
  with onlyAt_other [OF a, of q] onlyAt_other [OF b, of q] show "store c'' q = store c q" by simp
next
  from onlyAt_static [OF a, of b] onlyAt_static [OF b, of b]
  show "beanID (store c'' b) = beanID (store c b) \<and> name (store c'' b) = name (store c b) \<and>
         beanType (store c'' b) = beanType (store c b) \<and> cond (store c'' b) = cond (store c b) \<and>
         description (store c'' b) = description (store c b)" by simp
next
  fix q t assume "q \<in> set (beansByType c'' t)"
  then show "q \<in> set (beansByType c t) \<or> q = b" using a b by (blast dest: onlyAt_newType)
next
  fix q n assume "q \<in> set (beansByName c'' n)"
  then show "q \<in> set (beansByName c n) \<or> q = b" using a b by (blast dest: onlyAt_newName)
next
  fix q t assume "q \<in> set (beansByType c t)"
  then show "q \<in> set (beansByType c'' t)" using a b by (blast dest: onlyAt_growType)
next
  fix q n assume "q \<in> set (beansByName c n)"
  then show "q \<in> set (beansByName c'' n)" using a b by (blast dest: onlyAt_growName)
next
  fix t assume "t \<in> set (exports (store c b))"
  then show "t \<in> set (exports (store c'' b))" using a b by (blast dest: onlyAt_growExports)
next
  from onlyAt_byId [OF a] onlyAt_byId [OF b]
  show "\<exists>P. beansById c'' = filter P (beansById c)" by (blast dest: filter_twice)
qed

lemma onlyAt_setStatus: "onlyAt b c (setStatus b s c)"
  by (rule onlyAtI) (auto simp: setStatus_def intro: exI [of _ "\<lambda>_. True"])

lemma onlyAt_setExports: "set (exports (store c b)) \<subseteq> set ex \<Longrightarrow> onlyAt b c (setExports b ex c)"
  by (rule onlyAtI) (auto simp: setExports_def intro: exI [of _ "\<lambda>_. True"])

lemma onlyAt_indexByType: "onlyAt b c (indexByType t b c)"
  by (rule onlyAtI) (auto simp: indexByType_def split: if_splits intro: exI [of _ "\<lambda>_. True"])

lemma onlyAt_indexByName: "onlyAt b c (indexByName n b c)"
  by (rule onlyAtI) (auto simp: indexByName_def split: if_splits intro: exI [of _ "\<lambda>_. True"])

lemma onlyAt_deleteById: "onlyAt b c (deleteById k c)"
  by (rule onlyAtI) (auto simp: deleteById_def)

lemma onlyAt_indexExports:
  "indexExports R b ts c = (out, c') \<Longrightarrow> onlyAt b c c'"
proof (induction ts arbitrary: c)
  case Nil
  then show ?case by (simp add: onlyAt_refl)
next
  case (Cons t ts)
  show ?case
  proof (cases "kindOf R t \<noteq> Interface")
    case True
    with Cons.prems show ?thesis by (simp add: onlyAt_refl)
  next
    case False
    show ?thesis
    proof (cases "implements R (beanType (store c b)) t")
      case True
      with False Cons.prems have "indexExports R b ts (indexByType t b c) = (out, c')" by simp
      from Cons.IH [OF this] onlyAt_indexByType show ?thesis by (rule onlyAt_trans [rotated])
    next
      case False
      with \<open>\<not> kindOf R t \<noteq> Interface\<close> Cons.prems show ?thesis by (simp add: onlyAt_refl)
    qed
  qed
qed

lemma evolves_around:
  assumes d: "status (store c b) = Default"
    and ev: "evolves (setStatus b Resolving c) c2"
    and oa: "onlyAt b c2 c'"
    and nd: "status (store c' b) \<noteq> Default"
  shows "evolves c c'"
proof (rule evolvesI)
  let ?c1 = "setStatus b Resolving c"
  have s1: "\<And>q. q \<noteq> b \<Longrightarrow> store ?c1 q = store c q" by (simp add: setStatus_def)
  have i1: "beansByType ?c1 = beansByType c" "beansByName ?c1 = beansByName c"
    "beansById ?c1 = beansById c" "state ?c1 = state c" by (simp_all add: setStatus_def)
  have b1: "store ?c1 b = (store c b)\<lparr>status := Resolving\<rparr>" by (simp add: setStatus_def)
  have st1: "\<And>q. beanID (store ?c1 q) = beanID (store c q) \<and> name (store ?c1 q) = name (store c q) \<and>
          beanType (store ?c1 q) = beanType (store c q) \<and> cond (store ?c1 q) = cond (store c q) \<and>
          description (store ?c1 q) = description (store c q) \<and>
          exports (store ?c1 q) = exports (store c q)"
    by (simp add: setStatus_def)
  {
    fix q assume n: "status (store c q) \<noteq> Default"
    with d have qb: "q \<noteq> b" by auto
    with n s1 have "status (store ?c1 q) \<noteq> Default" by simp
    with ev have "store c2 q = store ?c1 q" by (rule evolves_same)
    with qb s1 onlyAt_other [OF oa qb] show "store c' q = store c q" by simp
  next
    fix q
    from st1 [of q] evolves_static [OF ev, of q] onlyAt_static [OF oa, of q]
    show "beanID (store c' q) = beanID (store c q) \<and> name (store c' q) = name (store c q) \<and>
          beanType (store c' q) = beanType (store c q) \<and> cond (store c' q) = cond (store c q) \<and>
          description (store c' q) = description (store c q)" by simp
  next
    fix q t assume m: "q \<in> set (beansByType c' t)"
    show "q \<in> set (beansByType c t) \<or> (status (store c q) = Default \<and> status (store c' q) \<noteq> Default)"
    proof (cases "q = b")
      case True
      with d nd show ?thesis by simp
    next
      case False
      with onlyAt_newType [OF oa m] have "q \<in> set (beansByType c2 t)" by simp
      from evolves_newType [OF ev this] i1 s1 [OF False] onlyAt_other [OF oa False]
      show ?thesis by auto
    qed
  next
    fix q n assume m: "q \<in> set (beansByName c' n)"
    show "q \<in> set (beansByName c n) \<or> (status (store c q) = Default \<and> status (store c' q) \<noteq> Default)"
    proof (cases "q = b")
      case True
      with d nd show ?thesis by simp
    next
      case False
      with onlyAt_newName [OF oa m] have "q \<in> set (beansByName c2 n)" by simp
      from evolves_newName [OF ev this] i1 s1 [OF False] onlyAt_other [OF oa False]
      show ?thesis by auto
    qed
  next
    fix q t assume "q \<in> set (beansByType c t)"
    with i1 have "q \<in> set (beansByType ?c1 t)" by simp
    then show "q \<in> set (beansByType c' t)" using ev oa
      by (blast dest: evolves_growType onlyAt_growType)
  next
    fix q n assume "q \<in> set (beansByName c n)"
    with i1 have "q \<in> set (beansByName ?c1 n)" by simp
    then show "q \<in> set (beansByName c' n)" using ev oa
      by (blast dest: evolves_growName onlyAt_growName)
  next
    fix q t assume "t \<in> set (exports (store c q))"
    with st1 [of q] have "t \<in> set (exports (store ?c1 q))" by simp
    then show "t \<in> set (exports (store c' q))" using ev oa
      by (blast dest: evolves_growExports onlyAt_growExports)
  next
    from evolves_byId [OF ev] i1 onlyAt_byId [OF oa]
    show "\<exists>P. beansById c' = filter P (beansById c)" by (auto dest: filter_twice)
  }
qed

lemma finderLoop_rel:
  assumes refl: "\<And>c. G c c"
    and trans: "\<And>c c' c''. G c c' \<Longrightarrow> G c' c'' \<Longrightarrow> G c c''"
    and rb: "\<And>e c out c'. e \<in> set (beansById c) \<Longrightarrow> rb (snd e) c = Some (out, c') \<Longrightarrow> G c c'"
  shows "finderLoop rb fn es result c = Some (out, c') \<Longrightarrow> G c c'"
proof (induction es arbitrary: result c)
  case Nil
  then show ?case by (simp add: refl)
next
  case (Cons e es)
  show ?case
  proof (cases "e \<in> set (beansById c) \<and> status (store c (snd e)) \<noteq> Resolving \<and> fn (store c (snd e))")
    case False
    with Cons.prems have "finderLoop rb fn es result c = Some (out, c')"
      by (auto split: if_splits)
    from Cons.IH [OF this] show ?thesis .
  next
    case True
    show ?thesis
    proof (cases "rb (snd e) c")
      case None
      with True Cons.prems show ?thesis by simp
    next
      case (Some r)
      obtain o1 c1 where r: "r = (o1, c1)" by (cases r)
      with Some True have ev1: "G c c1" using rb by blast
      show ?thesis
      proof (cases o1)
        case (Panics m)
        with True Some r Cons.prems have "c' = c1" by simp
        with ev1 show ?thesis by simp
      next
        case (Returns err)
        show ?thesis
        proof (cases err)
          case (Some e1)
          with Returns True \<open>rb (snd e) c = Some r\<close> r Cons.prems have "c' = c1" by simp
          with ev1 show ?thesis by simp
        next
          case None
          with Returns True \<open>rb (snd e) c = Some r\<close> r Cons.prems
          have "finderLoop rb fn es
               (if status (store c1 (snd e)) \<noteq> Deleted then result @ [snd e] else result) c1
              = Some (out, c')" by simp
          from Cons.IH [OF this] ev1 show ?thesis by (rule trans [rotated])
        qed
      qed
    qed
  qed
qed

lemma find_rel:
  assumes refl: "\<And>c. G c c"
    and trans: "\<And>c c' c''. G c c' \<Longrightarrow> G c' c'' \<Longrightarrow> G c c''"
    and rb: "\<And>e c out c'. e \<in> set (beansById c) \<Longrightarrow> rb (snd e) c = Some (out, c') \<Longrightarrow> G c c'"
  shows "find R X rb sel c = Some (out, c') \<Longrightarrow> G c c'"
  unfolding find_def callAfterRefreshing_def
  by (auto simp: Let_def refl split: if_splits selector.splits
      dest: finderLoop_rel [of G, OF refl trans rb, rotated -1])

lemma evalCond_rel:
  assumes refl: "\<And>c. G c c"
    and trans: "\<And>c c' c''. G c c' \<Longrightarrow> G c' c'' \<Longrightarrow> G c c''"
    and fd: "\<And>sel c out c'. fd sel c = Some (out, c') \<Longrightarrow> G c c'"
  shows "evalCond fd cd c = Some (out, c') \<Longrightarrow> G c c'"
proof (induction cd arbitrary: c)
  case (CondReturn v)
  then show ?case by (simp add: refl)
next
  case (CondPanic m)
  then show ?case by (simp add: refl)
next
  case (CondFind sel k)
  show ?case
  proof (cases "fd sel c")
    case None
    with CondFind.prems show ?thesis by simp
  next
    case (Some r)
    obtain o1 c1 where r: "r = (o1, c1)" by (cases r)
    with Some fd have ev1: "G c c1" by blast
    show ?thesis
    proof (cases o1)
      case (Panics m)
      with Some r CondFind.prems have "c' = c1" by simp
      with ev1 show ?thesis by simp
    next
      case (Returns res)
      with Some r CondFind.prems have "evalCond fd (k res) c1 = Some (out, c')" by simp
      with CondFind.IH have "G c1 c'" by blast
      with ev1 show ?thesis by (rule trans)
    qed
  qed
qed

lemma find_evolves:
  assumes "rbOK rb" and "find R X rb sel c = Some (out, c')"
  shows "evolves c c'"
proof (rule find_rel [of evolves, OF _ _ _ assms(2)])
  show "\<And>c. evolves c c" by (rule evolves_refl)
  show "\<And>c c' c''. evolves c c' \<Longrightarrow> evolves c' c'' \<Longrightarrow> evolves c c''" by (rule evolves_trans)
  show "\<And>e c out c'. e \<in> set (beansById c) \<Longrightarrow> rb (snd e) c = Some (out, c') \<Longrightarrow> evolves c c'"
    using assms(1) unfolding rbOK_def by blast
qed

lemma evalCond_evolves:
  assumes "rbOK rb" and "evalCond (find R X rb) cd c = Some (out, c')"
  shows "evolves c c'"
proof (rule evalCond_rel [of evolves, OF _ _ _ assms(2)])
  show "\<And>c. evolves c c" by (rule evolves_refl)
  show "\<And>c c' c''. evolves c c' \<Longrightarrow> evolves c' c'' \<Longrightarrow> evolves c c''" by (rule evolves_trans)
  show "\<And>sel c out c'. find R X rb sel c = Some (out, c') \<Longrightarrow> evolves c c'"
    using assms(1) by (rule find_evolves)
qed

lemma autoExportFrom_grows_raw:
  "autoExportFrom R fs ex = Some y \<Longrightarrow> set ex \<subseteq> set (snd y)"
proof -
  assume r: "autoExportFrom R fs ex = Some y"
  show "set ex \<subseteq> set (snd y)"
  proof (rule autoExportFrom.raw_induct
      [where P = "\<lambda>R fs ex y. set ex \<subseteq> set (snd y)", OF _ r], goal_cases)
  case (1 self R fs ex y)
  show ?case
  proof (cases fs)
    case Nil
    with 1(2) show ?thesis by auto
  next
    case (Cons f rest)
    show ?thesis
    proof (cases "Lookup (tag f) ''export''")
      case True
      show ?thesis
      proof (cases "kindOf R (fieldType f) \<noteq> Interface \<or> Lookup (tag f) ''inject''
                    \<or> Lookup (tag f) ''autowire''")
        case bad: True
        with True Cons 1(2) show ?thesis by (auto simp: Let_def split: if_splits)
      next
        case False
        with True Cons 1(2) have "self R rest (Export (fieldType f) ex) = Some y"
          by (simp add: Let_def)
        from 1(1) [OF this] show ?thesis by (auto simp: Export_def split: if_splits)
      qed
    next
      case False
      show ?thesis
      proof (cases "\<not> anonymous f \<or> Lookup (tag f) ''inject'' \<or> Lookup (tag f) ''autowire''
                    \<or> kindOf R (Indirect R (fieldType f)) \<noteq> Struct")
        case True
        with False Cons 1(2) have "self R rest ex = Some y"
          by (auto simp: Let_def split: if_splits)
        from 1(1) [OF this] show ?thesis .
      next
        case nest: False
        with False Cons 1(2)
        obtain e1 ex1 where a: "self R (fieldsOf R (Indirect R (fieldType f))) ex = Some (e1, ex1)"
          and b: "(case e1 of Some e \<Rightarrow> Some (Some e, ex1) | None \<Rightarrow> self R rest ex1) = Some y"
          by (auto simp: Let_def bind_eq_Some_conv)
        from 1(1) [OF a] have s1: "set ex \<subseteq> set ex1" by simp
        show ?thesis
        proof (cases e1)
          case None
          with b have "self R rest ex1 = Some y" by simp
          from 1(1) [OF this] s1 show ?thesis by blast
        next
          case (Some e)
          with b s1 show ?thesis by auto
        qed
      qed
    qed
  qed
  qed
qed

lemma autoExportFrom_grows:
  "autoExportFrom R fs ex = Some (err, ex') \<Longrightarrow> set ex \<subseteq> set ex'"
  by (drule autoExportFrom_grows_raw) simp

lemma autoExportBean_grows:
  "autoExportBean R d = Some (err, ex) \<Longrightarrow> set (exports d) \<subseteq> set ex"
  unfolding autoExportBean_def autoExport_def Let_def
  by (auto split: if_splits dest: autoExportFrom_grows)

lemma condMatches_evolves:
  assumes "rbOK rb" and "condMatches (find R X rb) co c = Some (out, c')"
  shows "evolves c c'"
  using assms unfolding condMatches_def
  by (cases co) (auto simp: evolves_refl dest: evalCond_evolves)

lemma indexExports_store:
  "indexExports R b ts c = (out, c') \<Longrightarrow> store c' = store c"
  by (induction ts arbitrary: c) (auto simp: indexByType_def split: if_splits)

lemma resolveBeanKept_onlyAt:
  assumes "resolveBeanKept R b c2 = Some (out, c')"
  shows "onlyAt b c2 c'"
proof -
  let ?c3 = "indexByType (beanType (store c2 b)) b c2"
  have o3: "onlyAt b c2 ?c3" by (rule onlyAt_indexByType)
  have o4: "\<And>ex. set (exports (store ?c3 b)) \<subseteq> set ex \<Longrightarrow> onlyAt b c2 (setExports b ex ?c3)"
    using o3 onlyAt_setExports by (rule onlyAt_trans)
  have o5: "\<And>ex o5 c5. set (exports (store ?c3 b)) \<subseteq> set ex \<Longrightarrow>
      indexExports R b (exports (store (setExports b ex ?c3) b)) (setExports b ex ?c3) = (o5, c5)
      \<Longrightarrow> onlyAt b c2 c5"
    using o4 onlyAt_indexExports by (blast intro: onlyAt_trans)
  have o6: "\<And>ex o5 c5. set (exports (store ?c3 b)) \<subseteq> set ex \<Longrightarrow>
      indexExports R b (exports (store (setExports b ex ?c3) b)) (setExports b ex ?c3) = (o5, c5)
      \<Longrightarrow> onlyAt b c2 (setStatus b Resolved (indexByName (name (store c5 b)) b c5))"
    using o5 onlyAt_indexByName onlyAt_setStatus by (blast intro: onlyAt_trans)
  from assms show ?thesis
    unfolding resolveBeanKept_def Let_def
    by (auto split: option.splits prod.splits outcome.splits if_splits
        dest!: autoExportBean_grows intro: o4 o5 o6)
qed

lemma resolveBeanKept_status:
  assumes "resolveBeanKept R b c2 = Some (out, c')"
  shows "status (store c' b) = (if out = Returns None then Resolved else status (store c2 b))"
  using assms unfolding resolveBeanKept_def Let_def
  by (auto split: option.splits prod.splits outcome.splits if_splits
      dest!: indexExports_store simp: setStatus_def setExports_def indexByType_def indexByName_def)

lemma resolveBeanStep_evolves:
  assumes rb: "rbOK rb" and r: "resolveBeanStep R X rb b c = Some (out, c')"
  shows "evolves c c'"
proof (cases "statusOrd (status (store c b)) \<ge> statusOrd Resolving")
  case True
  with r have "c' = c" by (simp add: resolveBeanStep_def)
  then show ?thesis by (simp add: evolves_refl)
next
  case False
  then have d: "status (store c b) = Default" by (cases "status (store c b)") simp_all
  let ?c1 = "setStatus b Resolving c"
  let ?ce = "condMatches (find R X rb) (cond (store ?c1 b)) ?c1"
  from r False obtain o2 c2 where ce: "?ce = Some (o2, c2)"
    unfolding resolveBeanStep_def Let_def by (cases ?ce) auto
  have ev: "evolves ?c1 c2" using rb ce by (rule condMatches_evolves)
  have "status (store ?c1 b) = Resolving" by (simp add: setStatus_def)
  with evolves_same [OF ev, of b] have s2: "status (store c2 b) = Resolving" by simp
  from r False ce have tail: "(case o2 of Panics m \<Rightarrow> Some (Panics m, c2)
       | Returns False \<Rightarrow> Some (Returns None, setStatus b Deleted (deleteById (beanID (store c2 b)) c2))
       | Returns True \<Rightarrow> resolveBeanKept R b c2) = Some (out, c')"
    unfolding resolveBeanStep_def Let_def by (simp split: outcome.splits bool.splits)
  have "onlyAt b c2 c' \<and> status (store c' b) \<noteq> Default"
  proof (cases o2)
    case (Panics m)
    with tail s2 show ?thesis by (simp add: onlyAt_refl)
  next
    case (Returns v)
    show ?thesis
    proof (cases v)
      case True
      with Returns tail have k: "resolveBeanKept R b c2 = Some (out, c')" by simp
      from resolveBeanKept_onlyAt [OF k] resolveBeanKept_status [OF k] s2 show ?thesis by simp
    next
      case False
      with Returns tail have "c' = setStatus b Deleted (deleteById (beanID (store c2 b)) c2)" by simp
      moreover have "onlyAt b c2 (setStatus b Deleted (deleteById (beanID (store c2 b)) c2))"
        using onlyAt_deleteById onlyAt_setStatus by (rule onlyAt_trans)
      ultimately show ?thesis by (simp add: setStatus_def)
    qed
  qed
  with d ev show ?thesis by (blast intro: evolves_around)
qed

lemma resolveBeanN_rbOK: "rbOK (resolveBeanN n R X)"
proof (induction n)
  case 0
  show ?case by (simp add: rbOK_def)
next
  case (Suc n)
  show ?case
    unfolding rbOK_def
  proof (intro allI impI)
    fix b c out c'
    assume "resolveBeanN (Suc n) R X b c = Some (out, c')"
    then have "resolveBeanStep R X (resolveBeanN n R X) b c = Some (out, c')" by simp
    with Suc show "evolves c c'" by (rule resolveBeanStep_evolves)
  qed
qed

lemma indexExports_state:
  "indexExports R b ts c = (out, c') \<Longrightarrow> state c' = state c"
  by (induction ts arbitrary: c) (auto simp: indexByType_def split: if_splits)

lemma resolveBeanKept_state:
  assumes "resolveBeanKept R b c2 = Some (out, c')"
  shows "state c' = state c2"
  using assms unfolding resolveBeanKept_def Let_def
  by (auto split: option.splits prod.splits outcome.splits if_splits
      dest!: indexExports_state simp: setStatus_def setExports_def indexByType_def indexByName_def)

lemma condMatches_state:
  assumes rb: "\<And>b c out c'. rb b c = Some (out, c') \<Longrightarrow> state c' = state c"
    and r: "condMatches (find R X rb) co c = Some (out, c')"
  shows "state c' = state c"
proof (cases co)
  case None
  with r show ?thesis by (simp add: condMatches_def)
next
  case (Some cd)
  with r have e: "evalCond (find R X rb) cd c = Some (out, c')" by (simp add: condMatches_def)
  have f: "\<And>sel c out c'. find R X rb sel c = Some (out, c') \<Longrightarrow> state c' = state c"
  proof -
    fix sel c out c' assume a: "find R X rb sel c = Some (out, c')"
    show "state c' = state c"
      by (rule find_rel [of "\<lambda>c c'. state c' = state c", OF _ _ _ a]) (simp_all add: rb)
  qed
  show ?thesis
    by (rule evalCond_rel [of "\<lambda>c c'. state c' = state c", OF _ _ _ e]) (simp_all add: f)
qed

lemma resolveBeanN_state:
  "resolveBeanN n R X b c = Some (out, c') \<Longrightarrow> state c' = state c"
proof (induction n arbitrary: b c out c')
  case 0
  then show ?case by simp
next
  case (Suc n)
  show ?case
  proof (cases "statusOrd (status (store c b)) \<ge> statusOrd Resolving")
    case True
    with Suc.prems show ?thesis by (simp add: resolveBeanStep_def)
  next
    case False
    let ?c1 = "setStatus b Resolving c"
    let ?ce = "condMatches (find R X (resolveBeanN n R X)) (cond (store ?c1 b)) ?c1"
    from Suc.prems False obtain o2 c2 where ce: "?ce = Some (o2, c2)"
      by (cases ?ce) (auto simp: resolveBeanStep_def Let_def)
    have "state c2 = state ?c1" using Suc.IH ce by (rule condMatches_state)
    then have s2: "state c2 = state c" by (simp add: setStatus_def)
    from Suc.prems False ce have tail: "(case o2 of Panics m \<Rightarrow> Some (Panics m, c2)
       | Returns False \<Rightarrow> Some (Returns None, setStatus b Deleted (deleteById (beanID (store c2 b)) c2))
       | Returns True \<Rightarrow> resolveBeanKept R b c2) = Some (out, c')"
      by (simp add: resolveBeanStep_def Let_def split: outcome.splits bool.splits)
    show ?thesis
    proof (cases o2)
      case (Panics m)
      with tail s2 show ?thesis by simp
    next
      case (Returns v)
      show ?thesis
      proof (cases v)
        case True
        with Returns tail have "resolveBeanKept R b c2 = Some (out, c')" by simp
        from resolveBeanKept_state [OF this] s2 show ?thesis by simp
      next
        case False
        with Returns tail s2 show ?thesis by (auto simp: setStatus_def deleteById_def)
      qed
    qed
  qed
qed

section \<open>Status progression\<close>

lemmas sample_defs = sampleContainer_def sampleHeap_def sampleBean_def sampleExt_def
  sampleReflect_def sampleNested_def New_def

lemmas resolve_defs = resolveBeanStep_def resolveBeanKept_def find_def callAfterRefreshing_def setStatus_def
  setExports_def deleteById_def indexByType_def indexByName_def Indirect_def autoExport_def
  autoExportBean_def condMatches_def Lookup_def Export_def




lemma later_evolves: "later R X c c' \<Longrightarrow> evolves c c'"
proof (induction rule: later.induct)
  case later_now
  show ?case by (rule evolves_refl)
next
  case (later_resolve c1 b n out c2)
  from resolveBeanN_rbOK [of n R X] later_resolve.hyps(3) have "evolves c1 c2"
    unfolding rbOK_def by blast
  with later_resolve.IH show ?case by (rule evolves_trans)
next
  case (later_find c1 n sel fout c2)
  from resolveBeanN_rbOK later_find.hyps(2) have "evolves c1 c2" by (rule find_evolves)
  with later_find.IH show ?case by (rule evolves_trans)
next
  case (later_other c1 c2)
  then have "evolves c1 c2" by (intro evolvesI) (auto intro: exI [of _ "\<lambda>_. True"])
  with later_other.IH show ?case by (rule evolves_trans)
qed

lemma evolves_byId_subset: "evolves c c' \<Longrightarrow> set (beansById c') \<subseteq> set (beansById c)"
  by (auto dest: evolves_byId)

lemma evolves_consistent:
  assumes "evolves c c'" and "consistent c"
  shows "consistent c'"
proof -
  from assms(1) obtain P where P: "beansById c' = filter P (beansById c)"
    by (blast dest: evolves_byId)
  have ids: "\<And>q. beanID (store c' q) = beanID (store c q)"
    using evolves_static [OF assms(1)] by simp
  have a: "\<forall>e \<in> set (beansById c'). fst e = beanID (store c' (snd e))"
    using assms(2) P ids unfolding consistent_def by simp
  have b: "distinct (map fst (beansById c'))"
    using assms(2) P unfolding consistent_def by (simp add: distinct_map_filter)
  have same: "\<And>q. status (store c q) \<noteq> Default \<Longrightarrow> store c' q = store c q"
    using assms(1) by (rule evolves_same)
  have c: "\<forall>q. status (store c' q) = Default \<longrightarrow>
          (\<forall>t. q \<notin> set (beansByType c' t)) \<and> (\<forall>n. q \<notin> set (beansByName c' n))"
  proof (intro allI impI)
    fix q assume d: "status (store c' q) = Default"
    with same [of q] have d0: "status (store c q) = Default" by (cases "status (store c q) = Default") auto
    with assms(2) have n0: "(\<forall>t. q \<notin> set (beansByType c t)) \<and> (\<forall>n. q \<notin> set (beansByName c n))"
      unfolding consistent_def by blast
    have t: "\<And>t. q \<in> set (beansByType c' t) \<Longrightarrow>
        q \<in> set (beansByType c t) \<or> (status (store c q) = Default \<and> status (store c' q) \<noteq> Default)"
      using assms(1) by (rule evolves_newType)
    have n: "\<And>n. q \<in> set (beansByName c' n) \<Longrightarrow>
        q \<in> set (beansByName c n) \<or> (status (store c q) = Default \<and> status (store c' q) \<noteq> Default)"
      using assms(1) by (rule evolves_newName)
    from t n n0 d show "(\<forall>t. q \<notin> set (beansByType c' t)) \<and> (\<forall>n. q \<notin> set (beansByName c' n))"
      by blast
  qed
  from a b c show ?thesis unfolding consistent_def by blast
qed

lemma sample_consistent: "consistent sampleContainer"
  unfolding consistent_def by (simp add: sample_defs)


section \<open>Entries of the identity index\<close>

lemma kept_refl: "kept c c"
  unfolding kept_def by simp

lemma steady_refl: "steady c c"
  unfolding steady_def by (simp add: evolves_refl kept_refl)

lemma kept_trans:
  assumes "kept c c'" and "kept c' c''" and "evolves c' c''"
  shows "kept c c''"
  unfolding kept_def
proof (intro ballI impI)
  fix e assume e: "e \<in> set (beansById c)" and n: "e \<notin> set (beansById c'')"
  show "status (store c'' (snd e)) = Deleted"
  proof (cases "e \<in> set (beansById c')")
    case True
    with assms(2) n show ?thesis unfolding kept_def by blast
  next
    case False
    with assms(1) e have "status (store c' (snd e)) = Deleted" unfolding kept_def by blast
    with evolves_same [OF assms(3), of "snd e"] show ?thesis by simp
  qed
qed

lemma steady_trans:
  assumes "steady c c'" and "steady c' c''"
  shows "steady c c''"
proof -
  from assms have ev: "evolves c c'" "evolves c' c''" unfolding steady_def by simp_all
  then have e: "evolves c c''" by (rule evolves_trans)
  have "consistent c \<longrightarrow> kept c c''"
  proof
    assume con: "consistent c"
    with assms(1) have k1: "kept c c'" unfolding steady_def by blast
    from ev(1) con have "consistent c'" by (rule evolves_consistent)
    with assms(2) have k2: "kept c' c''" unfolding steady_def by blast
    from k1 k2 ev(2) show "kept c c''" by (rule kept_trans)
  qed
  with e show ?thesis unfolding steady_def by simp
qed

lemma find_steady:
  assumes "rbKeeps rb" and "find R X rb sel c = Some (out, c')"
  shows "steady c c'"
proof (rule find_rel [of steady, OF _ _ _ assms(2)])
  show "\<And>c. steady c c" by (rule steady_refl)
  show "\<And>c c' c''. steady c c' \<Longrightarrow> steady c' c'' \<Longrightarrow> steady c c''" by (rule steady_trans)
  show "\<And>e c out c'. e \<in> set (beansById c) \<Longrightarrow> rb (snd e) c = Some (out, c') \<Longrightarrow> steady c c'"
    using assms(1) unfolding rbKeeps_def by blast
qed

lemma condMatches_steady:
  assumes "rbKeeps rb" and "condMatches (find R X rb) co c = Some (out, c')"
  shows "steady c c'"
proof (cases co)
  case None
  with assms(2) show ?thesis by (simp add: condMatches_def steady_refl)
next
  case (Some cd)
  with assms(2) have r: "evalCond (find R X rb) cd c = Some (out, c')"
    by (simp add: condMatches_def)
  show ?thesis
  proof (rule evalCond_rel [of steady, OF _ _ _ r])
    show "\<And>c. steady c c" by (rule steady_refl)
    show "\<And>c c' c''. steady c c' \<Longrightarrow> steady c' c'' \<Longrightarrow> steady c c''" by (rule steady_trans)
    show "\<And>sel c out c'. find R X rb sel c = Some (out, c') \<Longrightarrow> steady c c'"
      using assms(1) by (rule find_steady)
  qed
qed

lemma indexExports_byId:
  "indexExports R b ts c = (out, c') \<Longrightarrow> beansById c' = beansById c"
  by (induction ts arbitrary: c) (auto simp: indexByType_def split: if_splits)

lemma resolveBeanKept_byId:
  assumes "resolveBeanKept R b c2 = Some (out, c')"
  shows "beansById c' = beansById c2"
  using assms unfolding resolveBeanKept_def Let_def
  by (auto split: option.splits prod.splits outcome.splits if_splits
      dest!: indexExports_byId simp: setStatus_def setExports_def indexByType_def indexByName_def)

lemma consistent_setStatus:
  "consistent c \<Longrightarrow> s \<noteq> Default \<Longrightarrow> consistent (setStatus b s c)"
  unfolding consistent_def by (auto simp: setStatus_def)

lemma resolveBeanStep_kept:
  assumes ok: "rbOK rb" and keeps: "rbKeeps rb"
    and con: "consistent c" and idx: "b \<in> snd ` set (beansById c)"
    and r: "resolveBeanStep R X rb b c = Some (out, c')"
  shows "kept c c'"
proof (cases "statusOrd (status (store c b)) \<ge> statusOrd Resolving")
  case True
  with r have "c' = c" by (simp add: resolveBeanStep_def)
  then show ?thesis by (simp add: kept_refl)
next
  case False
  then have d: "status (store c b) = Default" by (cases "status (store c b)") simp_all
  let ?c1 = "setStatus b Resolving c"
  let ?ce = "condMatches (find R X rb) (cond (store ?c1 b)) ?c1"
  from r False obtain o2 c2 where ce: "?ce = Some (o2, c2)"
    unfolding resolveBeanStep_def Let_def by (cases ?ce) auto
  have con1: "consistent ?c1" using con by (simp add: consistent_setStatus)
  have st: "steady ?c1 c2" using keeps ce by (rule condMatches_steady)
  then have ev: "evolves ?c1 c2" and k12: "kept ?c1 c2" using con1 unfolding steady_def by simp_all
  have byid1: "beansById ?c1 = beansById c" by (simp add: setStatus_def)
  have "status (store ?c1 b) = Resolving" by (simp add: setStatus_def)
  with evolves_same [OF ev, of b] have s2: "store c2 b = store ?c1 b" by simp
  then have r2: "status (store c2 b) = Resolving" and id2: "beanID (store c2 b) = beanID (store c b)"
    by (simp_all add: setStatus_def)
  from r False ce have tail: "(case o2 of Panics m \<Rightarrow> Some (Panics m, c2)
       | Returns False \<Rightarrow> Some (Returns None, setStatus b Deleted (deleteById (beanID (store c2 b)) c2))
       | Returns True \<Rightarrow> resolveBeanKept R b c2) = Some (out, c')"
    unfolding resolveBeanStep_def Let_def by (simp split: outcome.splits bool.splits)
  have gone: "\<And>e. e \<in> set (beansById c) \<Longrightarrow> e \<notin> set (beansById c2) \<Longrightarrow>
      snd e \<noteq> b \<and> status (store c2 (snd e)) = Deleted"
    using k12 r2 byid1 unfolding kept_def by auto
  show ?thesis
  proof (cases "o2 = Returns False")
    case False
    have same_idx: "beansById c' = beansById c2"
    proof (cases o2)
      case (Panics m)
      with tail show ?thesis by simp
    next
      case (Returns v)
      with False have "v" by simp
      with Returns tail have "resolveBeanKept R b c2 = Some (out, c')" by simp
      then show ?thesis by (rule resolveBeanKept_byId)
    qed
    have oa: "onlyAt b c2 c'"
    proof (cases o2)
      case (Panics m)
      with tail show ?thesis by (simp add: onlyAt_refl)
    next
      case (Returns v)
      with False have "v" by simp
      with Returns tail have "resolveBeanKept R b c2 = Some (out, c')" by simp
      then show ?thesis by (rule resolveBeanKept_onlyAt)
    qed
    show ?thesis
      unfolding kept_def
    proof (intro ballI impI)
      fix e assume e: "e \<in> set (beansById c)" and n: "e \<notin> set (beansById c')"
      with same_idx gone [of e] have "snd e \<noteq> b" "status (store c2 (snd e)) = Deleted" by simp_all
      with onlyAt_other [OF oa, of "snd e"] show "status (store c' (snd e)) = Deleted" by simp
    qed
  next
    case True
    with tail have c': "c' = setStatus b Deleted (deleteById (beanID (store c2 b)) c2)" by simp
    from idx obtain k where kb: "(k, b) \<in> set (beansById c)" by force
    with con have k: "k = beanID (store c b)" unfolding consistent_def by force
    show ?thesis
      unfolding kept_def
    proof (intro ballI impI)
      fix e assume e: "e \<in> set (beansById c)" and n: "e \<notin> set (beansById c')"
      show "status (store c' (snd e)) = Deleted"
      proof (cases "e \<in> set (beansById c2)")
        case False
        with gone [OF e] have "snd e \<noteq> b" "status (store c2 (snd e)) = Deleted" by simp_all
        then show ?thesis using c' by (simp add: setStatus_def deleteById_def)
      next
        case True
        with n c' have "fst e = beanID (store c2 b)" by (auto simp: setStatus_def deleteById_def)
        with id2 k have "fst e = k" by simp
        moreover from con have "distinct (map fst (beansById c))" unfolding consistent_def by simp
        ultimately have "e = (k, b)" using e kb by (metis eq_key_imp_eq_value prod.collapse)
        then show ?thesis using c' by (simp add: setStatus_def)
      qed
    qed
  qed
qed

lemma resolveBeanN_rbKeeps: "rbKeeps (resolveBeanN n R X)"
proof (induction n)
  case 0
  show ?case by (simp add: rbKeeps_def)
next
  case (Suc n)
  show ?case
    unfolding rbKeeps_def steady_def
  proof (intro allI impI conjI)
    fix b c out c'
    assume "resolveBeanN (Suc n) R X b c = Some (out, c')"
    with resolveBeanN_rbOK [of "Suc n" R X] show "evolves c c'" unfolding rbOK_def by blast
  next
    fix b c out c'
    assume "b \<in> snd ` set (beansById c)" "consistent c"
      and "resolveBeanN (Suc n) R X b c = Some (out, c')"
    with resolveBeanStep_kept [OF resolveBeanN_rbOK Suc, of c b R X out c']
    show "kept c c'" by simp
  qed
qed

lemma later_steady: "later R X c c' \<Longrightarrow> steady c c'"
proof (induction rule: later.induct)
  case later_now
  show ?case by (rule steady_refl)
next
  case (later_resolve c1 b n out c2)
  from resolveBeanN_rbKeeps [of n R X] later_resolve.hyps(2,3) have "steady c1 c2"
    unfolding rbKeeps_def by blast
  with later_resolve.IH show ?case by (rule steady_trans)
next
  case (later_find c1 n sel fout c2)
  from resolveBeanN_rbKeeps later_find.hyps(2) have "steady c1 c2" by (rule find_steady)
  with later_find.IH show ?case by (rule steady_trans)
next
  case (later_other c1 c2)
  then have "evolves c1 c2" by (intro evolvesI) (auto intro: exI [of _ "\<lambda>_. True"])
  moreover from later_other.hyps have "kept c1 c2" unfolding kept_def by simp
  ultimately have "steady c1 c2" unfolding steady_def by simp
  with later_other.IH show ?case by (rule steady_trans)
qed

section \<open>Declared exports\<close>

lemma indexExports_ok:
  "\<forall>u \<in> set ts. kindOf R u = Interface \<and> implements R (beanType (store c b)) u \<Longrightarrow>
   \<exists>c'. indexExports R b ts c = (Returns None, c') \<and> (\<forall>u \<in> set ts. b \<in> set (beansByType c' u))"
proof (induction ts arbitrary: c)
  case Nil
  show ?case by simp
next
  case (Cons t ts)
  let ?c1 = "indexByType t b c"
  have s1: "store ?c1 = store c" by (simp add: indexByType_def)
  with Cons.prems have "\<forall>u \<in> set ts. kindOf R u = Interface \<and> implements R (beanType (store ?c1 b)) u"
    by simp
  from Cons.IH [OF this] obtain c' where r: "indexExports R b ts ?c1 = (Returns None, c')"
    and i: "\<forall>u \<in> set ts. b \<in> set (beansByType c' u)" by blast
  have "b \<in> set (beansByType ?c1 t)" by (simp add: indexByType_def)
  with onlyAt_indexExports [OF r] have "b \<in> set (beansByType c' t)" by (rule onlyAt_growType)
  with Cons.prems r i show ?case by simp
qed

lemma indexExports_err:
  assumes "\<forall>u \<in> set pre. kindOf R u = Interface \<and> implements R (beanType (store c b)) u"
    and "kindOf R t = Interface" and "\<not> implements R (beanType (store c b)) t"
  shows "\<exists>c'. indexExports R b (pre @ t # post) c =
            (Returns (Some (description (store c b) @ '' not implement '' @ typeString R t
                            @ '' interface'')), c') \<and>
          (\<forall>u \<in> set pre. b \<in> set (beansByType c' u))"
  using assms
proof (induction pre arbitrary: c)
  case Nil
  then show ?case by simp
next
  case (Cons p pre)
  let ?c1 = "indexByType p b c"
  have s1: "store ?c1 = store c" by (simp add: indexByType_def)
  with Cons.prems have a: "\<forall>u \<in> set pre. kindOf R u = Interface \<and> implements R (beanType (store ?c1 b)) u"
    and b: "\<not> implements R (beanType (store ?c1 b)) t" by simp_all
  from Cons.IH [OF a Cons.prems(2) b] obtain c' where
    r: "indexExports R b (pre @ t # post) ?c1 =
         (Returns (Some (description (store ?c1 b) @ '' not implement '' @ typeString R t
                            @ '' interface'')), c')"
    and i: "\<forall>u \<in> set pre. b \<in> set (beansByType c' u)" by blast
  have "b \<in> set (beansByType ?c1 p)" by (simp add: indexByType_def)
  with onlyAt_indexExports [OF r] have "b \<in> set (beansByType c' p)" by (rule onlyAt_growType)
  with Cons.prems r i s1 show ?case by simp
qed

lemma indexExports_names:
  "indexExports R b ts c = (out, c') \<Longrightarrow> beansByName c' = beansByName c"
  by (induction ts arbitrary: c) (auto simp: indexByType_def split: if_splits)

lemma autoExportBean_status [simp]:
  "autoExportBean R (d\<lparr>status := s\<rparr>) = autoExportBean R d"
  by (simp add: autoExportBean_def Let_def)

lemma resolveBeanStep_condition_true:
  assumes d: "status (store c b) = Default"
    and cm: "condMatches (find R X (resolveBeanN n R X)) (cond (store c b))
               (setStatus b Resolving c) = Some (Returns True, c2)"
  shows "resolveBeanN (Suc n) R X b c = resolveBeanKept R b c2"
    and "store c2 b = (store c b)\<lparr>status := Resolving\<rparr>"
    and "evolves (setStatus b Resolving c) c2"
proof -
  show "resolveBeanN (Suc n) R X b c = resolveBeanKept R b c2"
    using d cm by (simp add: resolveBeanStep_def setStatus_def)
  show ev: "evolves (setStatus b Resolving c) c2"
    using resolveBeanN_rbOK cm by (rule condMatches_evolves)
  have "status (store (setStatus b Resolving c) b) \<noteq> Default" by (simp add: setStatus_def)
  with ev have "store c2 b = store (setStatus b Resolving c) b" by (rule evolves_same)
  then show "store c2 b = (store c b)\<lparr>status := Resolving\<rparr>" by (simp add: setStatus_def)
qed

lemma resolveBeanKept_err:
  assumes ae: "autoExportBean R (store c2 b) = Some (None, pre @ t # post)"
    and pre: "\<forall>u \<in> set pre. kindOf R u = Interface \<and> implements R (beanType (store c2 b)) u"
    and t: "kindOf R t = Interface" "\<not> implements R (beanType (store c2 b)) t"
  shows "\<exists>c'. resolveBeanKept R b c2 =
            Some (Returns (Some (description (store c2 b) @ '' not implement '' @ typeString R t
                                 @ '' interface'')), c') \<and>
          status (store c' b) = status (store c2 b) \<and>
          b \<in> set (beansByType c' (beanType (store c2 b))) \<and>
          (\<forall>u \<in> set pre. b \<in> set (beansByType c' u)) \<and>
          beansByName c' = beansByName c2 \<and> beansById c' = beansById c2"
proof -
  let ?c3 = "indexByType (beanType (store c2 b)) b c2"
  let ?c4 = "setExports b (pre @ t # post) ?c3"
  have s3: "store ?c3 = store c2" by (simp add: indexByType_def)
  have s4: "beanType (store ?c4 b) = beanType (store c2 b)"
    "description (store ?c4 b) = description (store c2 b)"
    "exports (store ?c4 b) = pre @ t # post" "status (store ?c4 b) = status (store c2 b)"
    by (simp_all add: setExports_def indexByType_def)
  from pre t s4 have p4: "\<forall>u \<in> set pre. kindOf R u = Interface \<and> implements R (beanType (store ?c4 b)) u"
    and t4: "\<not> implements R (beanType (store ?c4 b)) t" by simp_all
  from indexExports_err [OF p4 t(1) t4, of post] s4 obtain c5 where
    r: "indexExports R b (pre @ t # post) ?c4 =
         (Returns (Some (description (store c2 b) @ '' not implement '' @ typeString R t
                            @ '' interface'')), c5)"
    and i: "\<forall>u \<in> set pre. b \<in> set (beansByType c5 u)" by auto
  have run: "resolveBeanKept R b c2 =
      Some (Returns (Some (description (store c2 b) @ '' not implement '' @ typeString R t
                           @ '' interface'')), c5)"
    unfolding resolveBeanKept_def Let_def using ae s3 s4 r by simp
  have "b \<in> set (beansByType ?c4 (beanType (store c2 b)))"
    by (simp add: setExports_def indexByType_def)
  with onlyAt_indexExports [OF r] have bt: "b \<in> set (beansByType c5 (beanType (store c2 b)))"
    by (rule onlyAt_growType)
  from indexExports_store [OF r] s4 have st: "status (store c5 b) = status (store c2 b)" by simp
  from indexExports_names [OF r] have nm: "beansByName c5 = beansByName c2"
    by (simp add: setExports_def indexByType_def)
  from indexExports_byId [OF r] have bi: "beansById c5 = beansById c2"
    by (simp add: setExports_def indexByType_def)
  from run st bt i nm bi show ?thesis by blast
qed

lemma resolveBeanKept_ok:
  assumes ae: "autoExportBean R (store c2 b) = Some (None, ex)"
    and all: "\<forall>u \<in> set ex. kindOf R u = Interface \<and> implements R (beanType (store c2 b)) u"
  shows "\<exists>c'. resolveBeanKept R b c2 = Some (Returns None, c') \<and>
          status (store c' b) = Resolved \<and>
          b \<in> set (beansByType c' (beanType (store c2 b))) \<and>
          (\<forall>u \<in> set ex. b \<in> set (beansByType c' u)) \<and>
          b \<in> set (beansByName c' (name (store c2 b)))"
proof -
  let ?c3 = "indexByType (beanType (store c2 b)) b c2"
  let ?c4 = "setExports b ex ?c3"
  have s3: "store ?c3 = store c2" by (simp add: indexByType_def)
  have s4: "beanType (store ?c4 b) = beanType (store c2 b)"
    "name (store ?c4 b) = name (store c2 b)"
    "exports (store ?c4 b) = ex" by (simp_all add: setExports_def indexByType_def)
  from all s4 have "\<forall>u \<in> set ex. kindOf R u = Interface \<and> implements R (beanType (store ?c4 b)) u"
    by simp
  from indexExports_ok [OF this] obtain c5 where r: "indexExports R b ex ?c4 = (Returns None, c5)"
    and i: "\<forall>u \<in> set ex. b \<in> set (beansByType c5 u)" by blast
  let ?c' = "setStatus b Resolved (indexByName (name (store c5 b)) b c5)"
  have run: "resolveBeanKept R b c2 = Some (Returns None, ?c')"
    unfolding resolveBeanKept_def Let_def using ae s3 s4 r by simp
  have "b \<in> set (beansByType ?c4 (beanType (store c2 b)))"
    by (simp add: setExports_def indexByType_def)
  with onlyAt_indexExports [OF r] have bt: "b \<in> set (beansByType c5 (beanType (store c2 b)))"
    by (rule onlyAt_growType)
  from indexExports_store [OF r] s4 have n5: "name (store c5 b) = name (store c2 b)" by simp
  have t': "beansByType ?c' = beansByType c5" by (simp add: setStatus_def indexByName_def)
  have n': "b \<in> set (beansByName ?c' (name (store c2 b)))"
    using n5 by (simp add: setStatus_def indexByName_def)
  have st: "status (store ?c' b) = Resolved" by (simp add: setStatus_def)
  from run st bt i t' n' show ?thesis by (intro exI [of _ ?c']) simp
qed

text \<open>
  C4 fails as stated: the bean \<^verbatim>\<open>v\<close> of the sample declares the export \<open>4\<close>, an
  interface its type does not implement, and \<^verbatim>\<open>resolveBean\<close> returns \<^verbatim>\<open>nil\<close>, because
  its condition is false and the exports are never looked at.
\<close>

theorem resolveBean_checks_exports_counterexample:
  "4 \<in> set (exports (store sampleContainer 3)) \<and> kindOf sampleReflect 4 = Interface \<and>
   \<not> implements sampleReflect (beanType (store sampleContainer 3)) 4 \<and>
   map_option fst (resolveBeanN 1 sampleReflect sampleExt 3 sampleContainer) = Some (Returns None)"
  by (simp add: resolve_defs sample_defs)

text \<open>
  C4, amended. For a descriptor at Default whose condition is absent or holds and whose
  auto-export returns no error, \<^verbatim>\<open>resolveBean\<close> visits the exports in the order of
  \<^verbatim>\<open>range\<close>. If it meets an interface the concrete type does not implement after
  interfaces it does implement, it returns the error made of the descriptor's
  description and the interface, having indexed the descriptor under the exports
  visited before. If every export is an interface the type implements, it returns
  \<^verbatim>\<open>nil\<close> with the descriptor Resolved and indexed under every export.
\<close>

theorem resolveBean_checks_exports:
  assumes d: "status (store c b) = Default"
    and cm: "condMatches (find R X (resolveBeanN n R X)) (cond (store c b))
               (setStatus b Resolving c) = Some (Returns True, c2)"
    and ae: "autoExportBean R (store c b) = Some (None, ex)"
  shows "(ex = pre @ t # post \<longrightarrow>
            (\<forall>u \<in> set pre. kindOf R u = Interface \<and> implements R (beanType (store c b)) u) \<longrightarrow>
            kindOf R t = Interface \<longrightarrow> \<not> implements R (beanType (store c b)) t \<longrightarrow>
            (\<exists>c'. resolveBeanN (Suc n) R X b c =
                    Some (Returns (Some (description (store c b) @ '' not implement ''
                                         @ typeString R t @ '' interface'')), c') \<and>
                  (\<forall>u \<in> set pre. b \<in> set (beansByType c' u)))) \<and>
         ((\<forall>u \<in> set ex. kindOf R u = Interface \<and> implements R (beanType (store c b)) u) \<longrightarrow>
            (\<exists>c'. resolveBeanN (Suc n) R X b c = Some (Returns None, c') \<and>
                  status (store c' b) = Resolved \<and>
                  (\<forall>u \<in> set ex. b \<in> set (beansByType c' u))))"
proof -
  note step = resolveBeanStep_condition_true [OF d cm]
  have ae2: "autoExportBean R (store c2 b) = Some (None, ex)" using ae step(2) by simp
  have f2: "beanType (store c2 b) = beanType (store c b)"
    "description (store c2 b) = description (store c b)" using step(2) by simp_all
  show ?thesis
  proof (intro conjI impI)
    assume "ex = pre @ t # post"
      and "\<forall>u \<in> set pre. kindOf R u = Interface \<and> implements R (beanType (store c b)) u"
      and "kindOf R t = Interface" and "\<not> implements R (beanType (store c b)) t"
    with resolveBeanKept_err [of R c2 b pre t post] ae2 f2 step(1)
    show "\<exists>c'. resolveBeanN (Suc n) R X b c =
                    Some (Returns (Some (description (store c b) @ '' not implement ''
                                         @ typeString R t @ '' interface'')), c') \<and>
                  (\<forall>u \<in> set pre. b \<in> set (beansByType c' u))"
      by auto
  next
    assume "\<forall>u \<in> set ex. kindOf R u = Interface \<and> implements R (beanType (store c b)) u"
    with resolveBeanKept_ok [of R c2 b ex] ae2 f2 step(1)
    show "\<exists>c'. resolveBeanN (Suc n) R X b c = Some (Returns None, c') \<and>
                  status (store c' b) = Resolved \<and>
                  (\<forall>u \<in> set ex. b \<in> set (beansByType c' u))"
      by auto
  qed
qed

theorem resolveBean_checks_exports_witness:
  "status (store sampleContainer 2) = Default \<and>
   autoExportBean sampleReflect (store sampleContainer 2) = Some (None, [3] @ 4 # []) \<and>
   implements sampleReflect (beanType (store sampleContainer 2)) 3 \<and>
   \<not> implements sampleReflect (beanType (store sampleContainer 2)) 4 \<and>
   (\<exists>c'. resolveBeanN (Suc 0) sampleReflect sampleExt 2 sampleContainer =
            Some (Returns (Some ''z not implement J interface''), c') \<and>
          2 \<in> set (beansByType c' 3)) \<and>
   status (store sampleContainer 0) = Default \<and>
   autoExportBean sampleReflect (store sampleContainer 0) = Some (None, [3]) \<and>
   (\<exists>c'. resolveBeanN (Suc 0) sampleReflect sampleExt 0 sampleContainer = Some (Returns None, c') \<and>
          status (store c' 0) = Resolved \<and> 0 \<in> set (beansByType c' 3))"
proof -
  have d: "status (store sampleContainer 2) = Default" by (simp add: sample_defs)
  have cm: "condMatches (find sampleReflect sampleExt (resolveBeanN 0 sampleReflect sampleExt))
      (cond (store sampleContainer 2)) (setStatus 2 Resolving sampleContainer)
      = Some (Returns True, setStatus 2 Resolving sampleContainer)"
    by (simp add: condMatches_def sample_defs)
  have ae: "autoExportBean sampleReflect (store sampleContainer 2) = Some (None, [3] @ 4 # [])"
    by (simp add: resolve_defs sample_defs autoExportFrom.simps)
  have i3: "implements sampleReflect (beanType (store sampleContainer 2)) 3"
    and i4: "\<not> implements sampleReflect (beanType (store sampleContainer 2)) 4"
    and k: "kindOf sampleReflect 3 = Interface" "kindOf sampleReflect 4 = Interface"
    and ds: "description (store sampleContainer 2) = ''z''" "typeString sampleReflect 4 = ''J''"
    by (simp_all add: sample_defs)
  have pre3: "\<forall>u \<in> set [3]. kindOf sampleReflect u = Interface \<and>
      implements sampleReflect (beanType (store sampleContainer 2)) u"
    using i3 k by simp
  from resolveBean_checks_exports [OF d cm ae, of "[3]" 4 "[]"] pre3 i4 k
  have "\<exists>c'. resolveBeanN (Suc 0) sampleReflect sampleExt 2 sampleContainer =
                    Some (Returns (Some (description (store sampleContainer 2) @ '' not implement ''
                                         @ typeString sampleReflect 4 @ '' interface'')), c') \<and>
                  (\<forall>u \<in> set [3]. 2 \<in> set (beansByType c' u))"
    by blast
  with ds have z: "\<exists>c'. resolveBeanN (Suc 0) sampleReflect sampleExt 2 sampleContainer =
            Some (Returns (Some ''z not implement J interface''), c') \<and>
          2 \<in> set (beansByType c' 3)" by simp
  have d0: "status (store sampleContainer 0) = Default" by (simp add: sample_defs)
  have cm0: "condMatches (find sampleReflect sampleExt (resolveBeanN 0 sampleReflect sampleExt))
      (cond (store sampleContainer 0)) (setStatus 0 Resolving sampleContainer)
      = Some (Returns True, setStatus 0 Resolving sampleContainer)"
    by (simp add: condMatches_def sample_defs)
  have ae0: "autoExportBean sampleReflect (store sampleContainer 0) = Some (None, [3])"
    by (simp add: resolve_defs sample_defs autoExportFrom.simps)
  have i0: "implements sampleReflect (beanType (store sampleContainer 0)) 3"
    by (simp add: sample_defs)
  have all0: "\<forall>u \<in> set [3]. kindOf sampleReflect u = Interface \<and>
      implements sampleReflect (beanType (store sampleContainer 0)) u"
    using i0 k by simp
  from resolveBean_checks_exports [OF d0 cm0 ae0, of "[]" 0 "[]"] all0
  have "\<exists>c'. resolveBeanN (Suc 0) sampleReflect sampleExt 0 sampleContainer = Some (Returns None, c') \<and>
          status (store c' 0) = Resolved \<and> (\<forall>u \<in> set [3]. 0 \<in> set (beansByType c' u))"
    by blast
  then have x: "\<exists>c'. resolveBeanN (Suc 0) sampleReflect sampleExt 0 sampleContainer = Some (Returns None, c') \<and>
          status (store c' 0) = Resolved \<and> 0 \<in> set (beansByType c' 3)"
    by simp
  from d ae i3 i4 z d0 ae0 x show ?thesis by blast
qed

text \<open>
  C10. An error return of \<^verbatim>\<open>resolveBean\<close> for an unimplemented export undoes nothing:
  in the container returned, and in every container reached later from it, the
  descriptor has status Resolving, is still in the identity index, is indexed under its
  concrete type and under every export visited before the failing one, and is in no
  entry of the by-name index.
\<close>

theorem resolveBean_export_error_not_atomic:
  assumes con: "consistent c"
    and d: "status (store c b) = Default"
    and kb: "(k, b) \<in> set (beansById c)"
    and cm: "condMatches (find R X (resolveBeanN n R X)) (cond (store c b))
               (setStatus b Resolving c) = Some (Returns True, c2)"
    and ae: "autoExportBean R (store c b) = Some (None, pre @ t # post)"
    and pre: "\<forall>u \<in> set pre. kindOf R u = Interface \<and> implements R (beanType (store c b)) u"
    and t: "kindOf R t = Interface" "\<not> implements R (beanType (store c b)) t"
    and run: "resolveBeanN (Suc n) R X b c = Some (out, c')"
    and lt: "later R X c' c''"
  shows "out = Returns (Some (description (store c b) @ '' not implement '' @ typeString R t
                              @ '' interface'')) \<and>
         status (store c'' b) = Resolving \<and>
         (k, b) \<in> set (beansById c'') \<and>
         b \<in> set (beansByType c'' (beanType (store c b))) \<and>
         (\<forall>u \<in> set pre. b \<in> set (beansByType c'' u)) \<and>
         (\<forall>nm. b \<notin> set (beansByName c'' nm))"
proof -
  let ?c1 = "setStatus b Resolving c"
  note step = resolveBeanStep_condition_true [OF d cm]
  have ae2: "autoExportBean R (store c2 b) = Some (None, pre @ t # post)" using ae step(2) by simp
  have f2: "beanType (store c2 b) = beanType (store c b)"
    "description (store c2 b) = description (store c b)"
    "status (store c2 b) = Resolving" using step(2) by simp_all
  from resolveBeanKept_err [of R c2 b pre t post] ae2 pre t f2 step(1) run
  have out: "out = Returns (Some (description (store c b) @ '' not implement '' @ typeString R t
                              @ '' interface''))"
    and st': "status (store c' b) = Resolving"
    and bt': "b \<in> set (beansByType c' (beanType (store c b)))"
    and pre': "\<forall>u \<in> set pre. b \<in> set (beansByType c' u)"
    and nm': "beansByName c' = beansByName c2"
    by auto
  have n1: "\<forall>nm. b \<notin> set (beansByName ?c1 nm)"
    using con d unfolding consistent_def by (simp add: setStatus_def)
  have r1: "status (store ?c1 b) \<noteq> Default" by (simp add: setStatus_def)
  have n2: "\<forall>nm. b \<notin> set (beansByName c' nm)"
  proof (intro allI notI)
    fix nm assume "b \<in> set (beansByName c' nm)"
    with nm' have "b \<in> set (beansByName c2 nm)" by simp
    from evolves_newName [OF step(3) this] r1 n1 show False by simp
  qed
  from kb have idx: "b \<in> snd ` set (beansById c)" by force
  from resolveBeanN_rbKeeps [of "Suc n" R X] idx run have s1: "steady c c'"
    unfolding rbKeeps_def by blast
  with con have k1: "kept c c'" and e1: "evolves c c'" unfolding steady_def by simp_all
  from k1 kb st' have kb': "(k, b) \<in> set (beansById c')" unfolding kept_def by force
  from e1 con have con': "consistent c'" by (rule evolves_consistent)
  from later_steady [OF lt] con' have k2: "kept c' c''" and e2: "evolves c' c''"
    unfolding steady_def by simp_all
  from st' evolves_same [OF e2, of b] have st'': "status (store c'' b) = Resolving" by simp
  from k2 kb' st'' have kb'': "(k, b) \<in> set (beansById c'')" unfolding kept_def by force
  from e2 bt' have bt'': "b \<in> set (beansByType c'' (beanType (store c b)))"
    by (rule evolves_growType)
  from e2 pre' have pre'': "\<forall>u \<in> set pre. b \<in> set (beansByType c'' u)"
    by (blast dest: evolves_growType)
  have n'': "\<forall>nm. b \<notin> set (beansByName c'' nm)"
  proof (intro allI notI)
    fix nm assume "b \<in> set (beansByName c'' nm)"
    from evolves_newName [OF e2 this] n2 st' show False by simp
  qed
  from out st'' kb'' bt'' pre'' n'' show ?thesis by blast
qed

theorem resolveBean_export_error_not_atomic_witness:
  "consistent sampleContainer \<and> status (store sampleContainer 2) = Default \<and>
   (''z'', 2) \<in> set (beansById sampleContainer) \<and>
   (\<exists>c'. resolveBeanN (Suc 0) sampleReflect sampleExt 2 sampleContainer
            = Some (Returns (Some ''z not implement J interface''), c') \<and>
      later sampleReflect sampleExt c' c' \<and>
      status (store c' 2) = Resolving \<and> (''z'', 2) \<in> set (beansById c') \<and>
      2 \<in> set (beansByType c' 6) \<and> 2 \<in> set (beansByType c' 3) \<and>
      (\<forall>nm. 2 \<notin> set (beansByName c' nm)))"
proof -
  have d: "status (store sampleContainer 2) = Default" by (simp add: sample_defs)
  have kb: "(''z'', 2) \<in> set (beansById sampleContainer)" by (simp add: sample_defs)
  have cm: "condMatches (find sampleReflect sampleExt (resolveBeanN 0 sampleReflect sampleExt))
      (cond (store sampleContainer 2)) (setStatus 2 Resolving sampleContainer)
      = Some (Returns True, setStatus 2 Resolving sampleContainer)"
    by (simp add: condMatches_def sample_defs)
  have ae: "autoExportBean sampleReflect (store sampleContainer 2) = Some (None, [3] @ 4 # [])"
    by (simp add: resolve_defs sample_defs autoExportFrom.simps)
  have pre: "\<forall>u \<in> set [3]. kindOf sampleReflect u = Interface \<and>
      implements sampleReflect (beanType (store sampleContainer 2)) u"
    and t: "kindOf sampleReflect 4 = Interface"
      "\<not> implements sampleReflect (beanType (store sampleContainer 2)) 4"
    and ds: "description (store sampleContainer 2) = ''z''" "typeString sampleReflect 4 = ''J''"
      "beanType (store sampleContainer 2) = 6"
    by (simp_all add: sample_defs)
  have "resolveBeanN (Suc 0) sampleReflect sampleExt 2 sampleContainer \<noteq> None"
    by (simp add: resolve_defs sample_defs autoExportFrom.simps)
  then obtain out c' where run: "resolveBeanN (Suc 0) sampleReflect sampleExt 2 sampleContainer
      = Some (out, c')" by (cases "resolveBeanN (Suc 0) sampleReflect sampleExt 2 sampleContainer") auto
  have lt: "later sampleReflect sampleExt c' c'" by (rule later_now)
  from resolveBean_export_error_not_atomic [OF sample_consistent d kb cm ae pre t run lt] ds run
  have "resolveBeanN (Suc 0) sampleReflect sampleExt 2 sampleContainer
            = Some (Returns (Some ''z not implement J interface''), c') \<and>
      status (store c' 2) = Resolving \<and> (''z'', 2) \<in> set (beansById c') \<and>
      2 \<in> set (beansByType c' 6) \<and> 2 \<in> set (beansByType c' 3) \<and>
      (\<forall>nm. 2 \<notin> set (beansByName c' nm))" by simp
  with sample_consistent d kb lt show ?thesis by blast
qed

section \<open>Lookup by interface type\<close>

lemma finderLoop_holds:
  assumes rb: "rbOK rb"
    and fn: "\<And>d. fn d \<Longrightarrow> t \<in> set (exports d)"
  shows "finderLoop rb fn es result c = Some (Returns (found, err), c') \<Longrightarrow>
         \<forall>q \<in> set result. t \<in> set (exports (store c q)) \<Longrightarrow>
         \<forall>q \<in> set found. t \<in> set (exports (store c' q))"
proof (induction es arbitrary: result c)
  case Nil
  then show ?case by simp
next
  case (Cons e es)
  show ?case
  proof (cases "e \<in> set (beansById c) \<and> status (store c (snd e)) \<noteq> Resolving \<and> fn (store c (snd e))")
    case False
    with Cons.prems(1) have "finderLoop rb fn es result c = Some (Returns (found, err), c')"
      by (auto split: if_splits)
    from Cons.IH [OF this Cons.prems(2)] show ?thesis .
  next
    case True
    then have te: "t \<in> set (exports (store c (snd e)))" using fn by blast
    show ?thesis
    proof (cases "rb (snd e) c")
      case None
      with True Cons.prems(1) show ?thesis by simp
    next
      case (Some r)
      obtain o1 c1 where r: "r = (o1, c1)" by (cases r)
      with Some rb have ev: "evolves c c1" unfolding rbOK_def by blast
      show ?thesis
      proof (cases o1)
        case (Panics m)
        with True Some r Cons.prems(1) show ?thesis by simp
      next
        case (Returns e1)
        show ?thesis
        proof (cases e1)
          case (Some e2)
          with Returns True \<open>rb (snd e) c = Some r\<close> r Cons.prems(1) show ?thesis by auto
        next
          case None
          let ?res = "if status (store c1 (snd e)) \<noteq> Deleted then result @ [snd e] else result"
          from None Returns True \<open>rb (snd e) c = Some r\<close> r Cons.prems(1)
          have run: "finderLoop rb fn es ?res c1 = Some (Returns (found, err), c')" by simp
          have "\<forall>q \<in> set ?res. t \<in> set (exports (store c1 q))"
            using Cons.prems(2) te ev by (auto dest: evolves_growExports)
          from Cons.IH [OF run this] show ?thesis .
        qed
      qed
    qed
  qed
qed

lemma find_SelValue:
  "state c \<noteq> Unrefreshed \<Longrightarrow> kindOf R t0 \<noteq> String \<Longrightarrow>
   find R X rb (SelValue t0) c =
     (let t = (if kindOf R t0 = Ptr \<and> kindOf R (elemOf R t0) = Interface then elemOf R t0 else t0)
      in finderLoop rb
           (\<lambda>b. if \<not> assignableTo R (beanType b) t then False
                else if kindOf R t \<noteq> Interface then True else t \<in> set (exports b))
           (beansById c) [] c)"
  by (simp add: find_def callAfterRefreshing_def)

text \<open>
  C9. A \<^verbatim>\<open>find\<close> whose selector denotes an interface type (a pointer to the interface,
  as in \<^verbatim>\<open>(*I)(nil)\<close>, or the type itself) returns only beans whose export set holds
  exactly that type. So a bean that does not hold it is not returned, whether or not
  its concrete type is assignable to the interface.
\<close>

theorem find_interface_needs_export:
  assumes "find R X (resolveBeanN n R X) (SelValue t0) c = Some (Returns (found, err), c')"
    and "t = (if kindOf R t0 = Ptr \<and> kindOf R (elemOf R t0) = Interface then elemOf R t0 else t0)"
    and "kindOf R t = Interface"
  shows "(\<forall>q \<in> set found. t \<in> set (exports (store c' q))) \<and>
         (\<forall>q. t \<notin> set (exports (store c' q)) \<longrightarrow> q \<notin> set found)"
proof -
  let ?fn = "\<lambda>b. if \<not> assignableTo R (beanType b) t then False
                  else if kindOf R t \<noteq> Interface then True else t \<in> set (exports b)"
  have fn: "\<And>d. ?fn d \<Longrightarrow> t \<in> set (exports d)" using assms(3) by (simp split: if_splits)
  from assms(1) have str: "kindOf R t0 \<noteq> String" and unr: "state c \<noteq> Unrefreshed"
    by (auto simp: find_def callAfterRefreshing_def split: if_splits)
  from assms(1) have "(let t = (if kindOf R t0 = Ptr \<and> kindOf R (elemOf R t0) = Interface
                                then elemOf R t0 else t0)
        in finderLoop (resolveBeanN n R X)
             (\<lambda>b. if \<not> assignableTo R (beanType b) t then False
                  else if kindOf R t \<noteq> Interface then True else t \<in> set (exports b))
             (beansById c) [] c) = Some (Returns (found, err), c')"
    by (simp only: find_SelValue [OF unr str])
  then have run: "finderLoop (resolveBeanN n R X) ?fn (beansById c) [] c
      = Some (Returns (found, err), c')"
    unfolding Let_def assms(2) [symmetric] .
  from finderLoop_holds [OF resolveBeanN_rbOK fn run]
  have "\<forall>q \<in> set found. t \<in> set (exports (store c' q))" by simp
  then show ?thesis by blast
qed

lemma sample_find_I:
  "\<exists>c'. find sampleReflect sampleExt (resolveBeanN 1 sampleReflect sampleExt) (SelValue 3)
          (sampleContainer\<lparr>beansById := [(''w'', 4), (''u'', 5)]\<rparr>) = Some (Returns ([5], None), c')
        \<and> exports (store c' 4) = [] \<and> status (store c' 4) = Default"
  by (simp add: resolve_defs sample_defs autoExportFrom.simps)

theorem find_interface_needs_export_witness:
  "kindOf sampleReflect 3 = Interface \<and>
   implements sampleReflect (beanType (store sampleContainer 4)) 3 \<and>
   assignableTo sampleReflect (beanType (store sampleContainer 4)) 3 \<and>
   (\<exists>c'. find sampleReflect sampleExt (resolveBeanN 1 sampleReflect sampleExt) (SelValue 3)
          (sampleContainer\<lparr>beansById := [(''w'', 4), (''u'', 5)]\<rparr>) = Some (Returns ([5], None), c')
        \<and> 3 \<in> set (exports (store c' 5)) \<and> 3 \<notin> set (exports (store c' 4)) \<and> 4 \<notin> set [5::nat])"
proof -
  obtain c' where run: "find sampleReflect sampleExt (resolveBeanN 1 sampleReflect sampleExt) (SelValue 3)
          (sampleContainer\<lparr>beansById := [(''w'', 4), (''u'', 5)]\<rparr>) = Some (Returns ([5], None), c')"
    and e4: "exports (store c' 4) = []"
    using sample_find_I by blast
  have k: "kindOf sampleReflect 3 = Interface" by (simp add: sample_defs)
  have t: "(3::nat) = (if kindOf sampleReflect 3 = Ptr \<and> kindOf sampleReflect (elemOf sampleReflect 3) = Interface
              then elemOf sampleReflect 3 else 3)" by (simp add: sample_defs)
  have i: "implements sampleReflect (beanType (store sampleContainer 4)) 3"
    "assignableTo sampleReflect (beanType (store sampleContainer 4)) 3" by (simp_all add: sample_defs)
  from find_interface_needs_export [OF run t k] e4
  have "3 \<in> set (exports (store c' 5)) \<and> 3 \<notin> set (exports (store c' 4)) \<and> 4 \<notin> set [5::nat]"
    by simp
  with k i run show ?thesis by blast
qed

section \<open>Building the identity index\<close>

lemma registerBeansFrom_frame:
  "registerBeansFrom bs c = (out, c') \<Longrightarrow>
   store c' = store c \<and> state c' = state c \<and> beans c' = beans c \<and>
   beansByName c' = beansByName c \<and> beansByType c' = beansByType c"
proof (induction bs arbitrary: c)
  case Nil
  then show ?case by simp
next
  case (Cons b bs)
  show ?case
  proof (cases "map_of (beansById c) (beanID (store c b))")
    case (Some d)
    with Cons.prems show ?thesis by simp
  next
    case None
    with Cons.prems have
      "registerBeansFrom bs (c\<lparr>beansById := beansById c @ [(beanID (store c b), b)]\<rparr>) = (out, c')"
      by simp
    from Cons.IH [OF this] show ?thesis by simp
  qed
qed

lemma registerBeansFrom_state:
  "registerBeansFrom bs (c\<lparr>state := s\<rparr>) =
   (fst (registerBeansFrom bs c), (snd (registerBeansFrom bs c))\<lparr>state := s\<rparr>)"
proof (induction bs arbitrary: c)
  case Nil
  show ?case by simp
next
  case (Cons b bs)
  show ?case
  proof (cases "map_of (beansById c) (beanID (store c b))")
    case (Some d)
    then show ?thesis by simp
  next
    case None
    let ?X = "beansById c @ [(beanID (store c b), b)]"
    have eq: "(c\<lparr>state := s\<rparr>)\<lparr>beansById := ?X\<rparr> = (c\<lparr>beansById := ?X\<rparr>)\<lparr>state := s\<rparr>"
      by simp
    have "registerBeansFrom (b # bs) (c\<lparr>state := s\<rparr>)
        = registerBeansFrom bs ((c\<lparr>state := s\<rparr>)\<lparr>beansById := ?X\<rparr>)"
      using None by simp
    also have "\<dots> = registerBeansFrom bs ((c\<lparr>beansById := ?X\<rparr>)\<lparr>state := s\<rparr>)"
      by (simp only: eq)
    also have "\<dots> = (fst (registerBeansFrom bs (c\<lparr>beansById := ?X\<rparr>)),
                     (snd (registerBeansFrom bs (c\<lparr>beansById := ?X\<rparr>)))\<lparr>state := s\<rparr>)"
      by (rule Cons.IH)
    also have "\<dots> = (fst (registerBeansFrom (b # bs) c),
                     (snd (registerBeansFrom (b # bs) c))\<lparr>state := s\<rparr>)"
      using None by simp
    finally show ?thesis .
  qed
qed

lemma registerBeansFrom_distinct:
  assumes "distinct (map (\<lambda>b. beanID (store c b)) bs)"
    and "\<forall>b \<in> set bs. beanID (store c b) \<notin> fst ` set (beansById c)"
  shows "registerBeansFrom bs c =
         (Returns (), c\<lparr>beansById := beansById c @ map (\<lambda>b. (beanID (store c b), b)) bs\<rparr>)"
  using assms
proof (induction bs arbitrary: c)
  case Nil
  then show ?case by simp
next
  case (Cons b bs)
  let ?c1 = "c\<lparr>beansById := beansById c @ [(beanID (store c b), b)]\<rparr>"
  from Cons.prems(2) have none: "map_of (beansById c) (beanID (store c b)) = None"
    by (simp add: map_of_eq_None_iff)
  have "distinct (map (\<lambda>b. beanID (store ?c1 b)) bs)" using Cons.prems(1) by simp
  moreover have "\<forall>q \<in> set bs. beanID (store ?c1 q) \<notin> fst ` set (beansById ?c1)"
    using Cons.prems by (auto simp: image_iff)
  ultimately have "registerBeansFrom bs ?c1 =
      (Returns (), ?c1\<lparr>beansById := beansById ?c1 @ map (\<lambda>b. (beanID (store ?c1 b), b)) bs\<rparr>)"
    by (rule Cons.IH)
  with none show ?case by simp
qed

lemma registerBeansFrom_returns:
  "registerBeansFrom bs c = (Returns u, c') \<Longrightarrow>
   distinct (map (\<lambda>b. beanID (store c b)) bs) \<and>
   (\<forall>b \<in> set bs. beanID (store c b) \<notin> fst ` set (beansById c))"
proof (induction bs arbitrary: c)
  case Nil
  then show ?case by simp
next
  case (Cons b bs)
  let ?c1 = "c\<lparr>beansById := beansById c @ [(beanID (store c b), b)]\<rparr>"
  from Cons.prems have none: "map_of (beansById c) (beanID (store c b)) = None"
    by (cases "map_of (beansById c) (beanID (store c b))") simp_all
  with Cons.prems have "registerBeansFrom bs ?c1 = (Returns u, c')" by simp
  from Cons.IH [OF this]
  have "distinct (map (\<lambda>b. beanID (store c b)) bs)"
    and "\<forall>q \<in> set bs. beanID (store c q) \<notin> fst ` set (beansById c) \<and>
                       beanID (store c q) \<noteq> beanID (store c b)"
    by auto
  moreover from none have "beanID (store c b) \<notin> fst ` set (beansById c)"
    by (simp add: map_of_eq_None_iff)
  ultimately show ?case by auto
qed

lemma registerBeansFrom_append:
  "registerBeansFrom (xs @ ys) c =
     (case registerBeansFrom xs c of
        (Panics m, c') \<Rightarrow> (Panics m, c')
      | (Returns u, c') \<Rightarrow> registerBeansFrom ys c')"
proof (induction xs arbitrary: c)
  case Nil
  show ?case by simp
next
  case (Cons b xs)
  show ?case
  proof (cases "map_of (beansById c) (beanID (store c b))")
    case None
    then show ?thesis by (simp add: Cons.IH)
  next
    case (Some d)
    then show ?thesis by simp
  qed
qed

lemma not_distinct_first:
  "\<not> distinct xs \<Longrightarrow>
   \<exists>i j. j < i \<and> i < length xs \<and> xs ! i = xs ! j \<and> distinct (take i xs)"
proof (induction xs rule: rev_induct)
  case Nil
  then show ?case by simp
next
  case (snoc x xs)
  show ?case
  proof (cases "distinct xs")
    case True
    with snoc.prems have "x \<in> set xs" by simp
    then obtain j where j: "j < length xs" "xs ! j = x" by (auto simp: in_set_conv_nth)
    with True show ?thesis
      by (intro exI [of _ "length xs"] exI [of _ j]) (simp add: nth_append)
  next
    case False
    from snoc.IH [OF this] obtain i j where
      ij: "j < i" "i < length xs" "xs ! i = xs ! j" "distinct (take i xs)" by blast
    then show ?thesis
      by (intro exI [of _ i] exI [of _ j]) (simp add: nth_append)
  qed
qed

text \<open>
  The walk of \<^verbatim>\<open>registerBeans\<close> over a list whose first repeated identity is at
  position \<open>i\<close>, the earlier descriptor of that identity being at position \<open>j\<close>.
\<close>

lemma registerBeansFrom_first_duplicate:
  assumes e: "beansById c = []"
    and ij: "j < i" "i < length bs"
    and d: "distinct (map (\<lambda>b. beanID (store c b)) (take i bs))"
    and eq: "beanID (store c (bs ! i)) = beanID (store c (bs ! j))"
  shows "registerBeansFrom bs c =
     (Panics (''found duplicate beans ['' @ description (store c (bs ! i)) @ ''] [''
              @ description (store c (bs ! j)) @ '']''),
      c\<lparr>beansById := map (\<lambda>b. (beanID (store c b), b)) (take i bs)\<rparr>)"
proof -
  let ?f = "\<lambda>b. beanID (store c b)"
  let ?xs = "take i bs"
  let ?c1 = "c\<lparr>beansById := map (\<lambda>b. (?f b, b)) ?xs\<rparr>"
  have split: "bs = ?xs @ bs ! i # drop (Suc i) bs"
    using ij(2) by (simp add: id_take_nth_drop)
  have pre: "registerBeansFrom ?xs c = (Returns (), ?c1)"
    using registerBeansFrom_distinct [of c ?xs] d e by simp
  have j: "?xs ! j = bs ! j" "j < length ?xs" using ij by simp_all
  have m: "(fst \<circ> (\<lambda>b. (?f b, b))) = ?f" by (simp add: comp_def)
  have "(?f (bs ! j), bs ! j) \<in> set (map (\<lambda>b. (?f b, b)) ?xs)"
    using j by (metis (no_types, lifting) image_eqI list.set_map nth_mem)
  moreover have "distinct (map fst (map (\<lambda>b. (?f b, b)) ?xs))" using d by (simp add: m)
  ultimately have look: "map_of (beansById ?c1) (beanID (store ?c1 (bs ! i))) = Some (bs ! j)"
    using eq by simp
  have "registerBeansFrom bs c = registerBeansFrom (?xs @ bs ! i # drop (Suc i) bs) c"
    using split by simp
  also have "\<dots> = registerBeansFrom (bs ! i # drop (Suc i) bs) ?c1"
    by (simp only: registerBeansFrom_append pre) simp
  also have "\<dots> = (Panics (''found duplicate beans ['' @ description (store c (bs ! i)) @ ''] [''
              @ description (store c (bs ! j)) @ '']''), ?c1)"
    using look by simp
  finally show ?thesis .
qed

text \<open>
  C3. At the start of refresh the identity index is empty. If two registered
  descriptors have the same identity, \<^verbatim>\<open>registerBeans\<close> panics, and so does
  \<^verbatim>\<open>Refresh\<close>: with \<open>i\<close> the first position of the list of registered beans whose
  identity was already met and \<open>j\<close> the earlier position where it was met, the message
  holds the description of the descriptor at \<open>i\<close> and then the description of the
  descriptor at \<open>j\<close>, two distinct entries of the list, and the identity index holds the
  entries before \<open>i\<close>. If all identities are distinct, \<^verbatim>\<open>registerBeans\<close> returns after
  placing every registered descriptor into the identity index under its identity.
\<close>

theorem registerBeans_duplicate_identity:
  assumes "beansById c = []"
  shows "(\<not> distinct (map (\<lambda>b. beanID (store c b)) (beans c)) \<longrightarrow>
           (\<exists>i j. j < i \<and> i < length (beans c) \<and>
              distinct (map (\<lambda>b. beanID (store c b)) (take i (beans c))) \<and>
              beanID (store c (beans c ! i)) = beanID (store c (beans c ! j)) \<and>
              registerBeans c =
                (Panics (''found duplicate beans ['' @ description (store c (beans c ! i))
                         @ ''] ['' @ description (store c (beans c ! j)) @ '']''),
                 c\<lparr>beansById := map (\<lambda>b. (beanID (store c b), b)) (take i (beans c))\<rparr>) \<and>
              (state c = Unrefreshed \<longrightarrow>
                 Refresh n R X c w =
                   Some (Panics (''found duplicate beans ['' @ description (store c (beans c ! i))
                                 @ ''] ['' @ description (store c (beans c ! j)) @ '']''),
                         c\<lparr>beansById := map (\<lambda>b. (beanID (store c b), b)) (take i (beans c)),
                           state := Refreshing\<rparr>, w)))) \<and>
         (distinct (map (\<lambda>b. beanID (store c b)) (beans c)) \<longrightarrow>
           registerBeans c =
             (Returns (), c\<lparr>beansById := map (\<lambda>b. (beanID (store c b), b)) (beans c)\<rparr>))"
proof (intro conjI impI)
  let ?f = "\<lambda>b. beanID (store c b)"
  assume nd: "\<not> distinct (map ?f (beans c))"
  from not_distinct_first [OF nd] obtain i j where
    ij: "j < i" "i < length (beans c)" "map ?f (beans c) ! i = map ?f (beans c) ! j"
      "distinct (take i (map ?f (beans c)))" by auto
  from ij have eq: "?f (beans c ! i) = ?f (beans c ! j)" by simp
  from ij(4) have d: "distinct (map ?f (take i (beans c)))" by (simp add: take_map)
  let ?m = "''found duplicate beans ['' @ description (store c (beans c ! i))
            @ ''] ['' @ description (store c (beans c ! j)) @ '']''"
  let ?c' = "c\<lparr>beansById := map (\<lambda>b. (?f b, b)) (take i (beans c))\<rparr>"
  have r: "registerBeansFrom (beans c) c = (Panics ?m, ?c')"
    using assms ij(1,2) d eq by (rule registerBeansFrom_first_duplicate)
  let ?c1 = "c\<lparr>state := Refreshing\<rparr>"
  have r1: "registerBeansFrom (beans c) ?c1 = (Panics ?m, ?c'\<lparr>state := Refreshing\<rparr>)"
    using r registerBeansFrom_state [where bs = "beans c" and c = c and s = Refreshing] by simp
  have "state c = Unrefreshed \<longrightarrow>
      Refresh n R X c w = Some (Panics ?m, ?c'\<lparr>state := Refreshing\<rparr>, w)"
    using r1 by (simp add: Refresh_def registerBeans_def)
  with ij(1,2) d eq r
  show "\<exists>i j. j < i \<and> i < length (beans c) \<and>
              distinct (map (\<lambda>b. beanID (store c b)) (take i (beans c))) \<and>
              beanID (store c (beans c ! i)) = beanID (store c (beans c ! j)) \<and>
              registerBeans c =
                (Panics (''found duplicate beans ['' @ description (store c (beans c ! i))
                         @ ''] ['' @ description (store c (beans c ! j)) @ '']''),
                 c\<lparr>beansById := map (\<lambda>b. (beanID (store c b), b)) (take i (beans c))\<rparr>) \<and>
              (state c = Unrefreshed \<longrightarrow>
                 Refresh n R X c w =
                   Some (Panics (''found duplicate beans ['' @ description (store c (beans c ! i))
                                 @ ''] ['' @ description (store c (beans c ! j)) @ '']''),
                         c\<lparr>beansById := map (\<lambda>b. (beanID (store c b), b)) (take i (beans c)),
                           state := Refreshing\<rparr>, w))"
    unfolding registerBeans_def by (intro exI [of _ i] exI [of _ j]) simp
next
  assume "distinct (map (\<lambda>b. beanID (store c b)) (beans c))"
  with registerBeansFrom_distinct [of c "beans c"] assms
  show "registerBeans c =
      (Returns (), c\<lparr>beansById := map (\<lambda>b. (beanID (store c b), b)) (beans c)\<rparr>)"
    by (simp add: registerBeans_def)
qed

text \<open>
  A run with three registered beans: \<^verbatim>\<open>x\<close>, \<^verbatim>\<open>z\<close>, and a second bean of identity
  \<^verbatim>\<open>x\<close> that was declared elsewhere and so has a description of its own.
\<close>

theorem registerBeans_duplicate_identity_witness:
  "beansById ((New (sampleHeap(7 := (sampleBean ''x'' 6 None [])\<lparr>description := ''x again''\<rparr>)))
                \<lparr>beans := [0, 2, 7]\<rparr> :: nat list Container) = [] \<and>
   \<not> distinct (map (\<lambda>b. beanID (store
        ((New (sampleHeap(7 := (sampleBean ''x'' 6 None [])\<lparr>description := ''x again''\<rparr>)))
                \<lparr>beans := [0, 2, 7]\<rparr> :: nat list Container) b)) [0, 2, 7]) \<and>
   fst (registerBeans ((New (sampleHeap(7 := (sampleBean ''x'' 6 None [])\<lparr>description := ''x again''\<rparr>)))
                \<lparr>beans := [0, 2, 7]\<rparr> :: nat list Container))
     = Panics ''found duplicate beans [x again] [x]'' \<and>
   beansById ((New sampleHeap)\<lparr>beans := [0, 2]\<rparr> :: nat list Container) = [] \<and>
   distinct (map (\<lambda>b. beanID (store ((New sampleHeap)\<lparr>beans := [0, 2]\<rparr> :: nat list Container) b)) [0, 2]) \<and>
   registerBeans ((New sampleHeap)\<lparr>beans := [0, 2]\<rparr> :: nat list Container)
     = (Returns (), (New sampleHeap)\<lparr>beans := [0, 2], beansById := [(''x'', 0), (''z'', 2)]\<rparr>)"
proof -
  let ?c = "(New (sampleHeap(7 := (sampleBean ''x'' 6 None [])\<lparr>description := ''x again''\<rparr>)))
                \<lparr>beans := [0, 2, 7]\<rparr> :: nat list Container"
  let ?d = "(New sampleHeap)\<lparr>beans := [0, 2]\<rparr> :: nat list Container"
  have e: "beansById ?c = []" "beansById ?d = []" by (simp_all add: New_def)
  have nd: "\<not> distinct (map (\<lambda>b. beanID (store ?c b)) (beans ?c))"
    and di: "distinct (map (\<lambda>b. beanID (store ?d b)) (beans ?d))"
    by (simp_all add: sample_defs)
  have p: "fst (registerBeans ?c) = Panics ''found duplicate beans [x again] [x]''"
    by (simp add: registerBeans_def sample_defs)
  from registerBeans_duplicate_identity
    [OF e(2), where n = 0 and R = sampleReflect and X = sampleExt and w = "[]"] di
  have "registerBeans ?d =
      (Returns (), ?d\<lparr>beansById := map (\<lambda>b. (beanID (store ?d b), b)) (beans ?d)\<rparr>)"
    by blast
  then have r: "registerBeans ?d =
      (Returns (), (New sampleHeap)\<lparr>beans := [0, 2], beansById := [(''x'', 0), (''z'', 2)]\<rparr>)"
    by (simp add: sample_defs)
  from registerBeans_duplicate_identity
    [OF e(1), where n = 0 and R = sampleReflect and X = sampleExt and w = "[]"] nd
  have "\<exists>i j. j < i \<and> i < length (beans ?c) \<and>
      beanID (store ?c (beans ?c ! i)) = beanID (store ?c (beans ?c ! j))" by blast
  with e nd di p r show ?thesis by simp
qed

text \<open>
  The index that \<^verbatim>\<open>registerBeans\<close> builds in a fresh container is consistent, and
  resolution keeps it so (\<open>evolves_consistent\<close>).
\<close>

lemma registerBeans_consistent:
  assumes e: "beansById c = []"
    and i: "\<forall>q. (\<forall>t. q \<notin> set (beansByType c t)) \<and> (\<forall>n. q \<notin> set (beansByName c n))"
    and r: "registerBeans c = (Returns u, c')"
  shows "consistent c'"
proof -
  from r have r': "registerBeansFrom (beans c) c = (Returns u, c')" by (simp add: registerBeans_def)
  from registerBeansFrom_returns [OF r']
  have d: "distinct (map (\<lambda>b. beanID (store c b)) (beans c))" by simp
  with registerBeansFrom_distinct [of c "beans c"] e r'
  have c': "c' = c\<lparr>beansById := map (\<lambda>b. (beanID (store c b), b)) (beans c)\<rparr>" by simp
  have m: "(fst \<circ> (\<lambda>b. (beanID (store c b), b))) = (\<lambda>b. beanID (store c b))"
    by (simp add: comp_def)
  show ?thesis
    unfolding consistent_def c' using d i by (auto simp: m)
qed

lemma New_registerBeans_consistent:
  "registerBeans ((New heap)\<lparr>beans := bs, state := s\<rparr>) = (Returns u, c') \<Longrightarrow> consistent c'"
  by (rule registerBeans_consistent [of "(New heap)\<lparr>beans := bs, state := s\<rparr>"])
    (simp_all add: New_def)

section \<open>Auto-export through embedded structs\<close>

lemma exportsVia_Nil: "\<not> exportsVia R [] i"
  by (auto elim: exportsVia.cases)

lemma exportsVia_tail: "exportsVia R rest i \<Longrightarrow> exportsVia R (f # rest) i"
  by (erule exportsVia.cases) (auto intro: exportsVia.intros)

lemma exportsVia_Cons:
  "exportsVia R (f # rest) i \<longleftrightarrow>
     (Lookup (tag f) ''export'' \<and> i = fieldType f) \<or>
     (\<not> Lookup (tag f) ''export'' \<and> anonymous f \<and> \<not> Lookup (tag f) ''inject'' \<and>
      \<not> Lookup (tag f) ''autowire'' \<and> kindOf R (Indirect R (fieldType f)) = Struct \<and>
      exportsVia R (fieldsOf R (Indirect R (fieldType f))) i) \<or>
     exportsVia R rest i"
  (is "?L \<longleftrightarrow> ?A \<or> ?B \<or> ?C")
proof
  assume ?L
  then show "?A \<or> ?B \<or> ?C"
    by cases (auto intro: exportsVia.intros)
next
  assume "?A \<or> ?B \<or> ?C"
  then show ?L
  proof (elim disjE)
    assume ?A
    then show ?L using exportsVia_tagged [of f "f # rest" R] by simp
  next
    assume ?B
    then show ?L using exportsVia_embedded [of f "f # rest" R i] by simp
  next
    assume ?C
    then show ?L by (rule exportsVia_tail)
  qed
qed

lemma autoExportFrom_surfaces:
  "autoExportFrom R fs ex = Some y \<Longrightarrow>
   fst y = None \<longrightarrow> set (snd y) = set ex \<union> {i. exportsVia R fs i}"
proof -
  assume r: "autoExportFrom R fs ex = Some y"
  show "fst y = None \<longrightarrow> set (snd y) = set ex \<union> {i. exportsVia R fs i}"
  proof (rule autoExportFrom.raw_induct
      [where P = "\<lambda>R fs ex y. fst y = None \<longrightarrow> set (snd y) = set ex \<union> {i. exportsVia R fs i}",
        OF _ r], goal_cases)
    case (1 self R fs ex y)
    show ?case
    proof (cases fs)
      case Nil
      with 1(2) show ?thesis by (auto simp: exportsVia_Nil)
    next
      case (Cons f rest)
      show ?thesis
      proof (cases "Lookup (tag f) ''export''")
        case True
        show ?thesis
        proof (cases "kindOf R (fieldType f) \<noteq> Interface \<or> Lookup (tag f) ''inject''
                      \<or> Lookup (tag f) ''autowire''")
          case bad: True
          with True Cons 1(2) show ?thesis by (auto simp: Let_def split: if_splits)
        next
          case False
          with True Cons 1(2) have "self R rest (Export (fieldType f) ex) = Some y"
            by (simp add: Let_def)
          from 1(1) [OF this]
          have "fst y = None \<longrightarrow>
              set (snd y) = set (Export (fieldType f) ex) \<union> {i. exportsVia R rest i}" .
          moreover have "set (Export (fieldType f) ex) = insert (fieldType f) (set ex)"
            by (auto simp: Export_def)
          moreover have "{i. exportsVia R (f # rest) i} = insert (fieldType f) {i. exportsVia R rest i}"
            using True by (auto simp: exportsVia_Cons)
          ultimately show ?thesis using Cons by auto
        qed
      next
        case False
        show ?thesis
        proof (cases "\<not> anonymous f \<or> Lookup (tag f) ''inject'' \<or> Lookup (tag f) ''autowire''
                      \<or> kindOf R (Indirect R (fieldType f)) \<noteq> Struct")
          case True
          with False Cons 1(2) have "self R rest ex = Some y"
            by (auto simp: Let_def split: if_splits)
          from 1(1) [OF this]
          have "fst y = None \<longrightarrow> set (snd y) = set ex \<union> {i. exportsVia R rest i}" .
          moreover have "{i. exportsVia R (f # rest) i} = {i. exportsVia R rest i}"
            using True False by (auto simp: exportsVia_Cons)
          ultimately show ?thesis using Cons by simp
        next
          case nest: False
          with False Cons 1(2)
          obtain e1 ex1 where a: "self R (fieldsOf R (Indirect R (fieldType f))) ex = Some (e1, ex1)"
            and b: "(case e1 of Some e \<Rightarrow> Some (Some e, ex1) | None \<Rightarrow> self R rest ex1) = Some y"
            by (auto simp: Let_def bind_eq_Some_conv)
          have via: "{i. exportsVia R (f # rest) i} =
              {i. exportsVia R (fieldsOf R (Indirect R (fieldType f))) i} \<union> {i. exportsVia R rest i}"
            using nest False by (auto simp: exportsVia_Cons)
          show ?thesis
          proof (cases e1)
            case None
            with 1(1) [OF a] have s1: "set ex1 = set ex \<union>
                {i. exportsVia R (fieldsOf R (Indirect R (fieldType f))) i}" by simp
            from None b have "self R rest ex1 = Some y" by simp
            from 1(1) [OF this]
            have "fst y = None \<longrightarrow> set (snd y) = set ex1 \<union> {i. exportsVia R rest i}" .
            with s1 via Cons show ?thesis by auto
          next
            case (Some e)
            with b show ?thesis by auto
          qed
        qed
      qed
    qed
  qed
qed

lemma exportFault_Nil: "\<not> exportFault R []"
  by (auto elim: exportFault.cases)

lemma exportFault_tail: "exportFault R rest \<Longrightarrow> exportFault R (f # rest)"
  by (erule exportFault.cases) (auto intro: exportFault.intros)

lemma exportFault_Cons:
  "exportFault R (f # rest) \<longleftrightarrow>
     (Lookup (tag f) ''export'' \<and>
      (kindOf R (fieldType f) \<noteq> Interface \<or> Lookup (tag f) ''inject'' \<or> Lookup (tag f) ''autowire'')) \<or>
     (\<not> Lookup (tag f) ''export'' \<and> anonymous f \<and> \<not> Lookup (tag f) ''inject'' \<and>
      \<not> Lookup (tag f) ''autowire'' \<and> kindOf R (Indirect R (fieldType f)) = Struct \<and>
      exportFault R (fieldsOf R (Indirect R (fieldType f)))) \<or>
     exportFault R rest"
  (is "?L \<longleftrightarrow> ?A \<or> ?B \<or> ?C")
proof
  assume ?L
  then show "?A \<or> ?B \<or> ?C"
    by cases (auto intro: exportFault.intros)
next
  assume "?A \<or> ?B \<or> ?C"
  then show ?L
  proof (elim disjE)
    assume ?A
    then show ?L using exportFault_tagged [of f "f # rest" R] by simp
  next
    assume ?B
    then show ?L using exportFault_embedded [of f "f # rest" R] by simp
  next
    assume ?C
    then show ?L by (rule exportFault_tail)
  qed
qed

lemma autoExportFrom_fault:
  "autoExportFrom R fs ex = Some y \<Longrightarrow> fst y = None \<longleftrightarrow> \<not> exportFault R fs"
proof -
  assume r: "autoExportFrom R fs ex = Some y"
  show "fst y = None \<longleftrightarrow> \<not> exportFault R fs"
  proof (rule autoExportFrom.raw_induct
      [where P = "\<lambda>R fs ex y. fst y = None \<longleftrightarrow> \<not> exportFault R fs", OF _ r], goal_cases)
    case (1 self R fs ex y)
    show ?case
    proof (cases fs)
      case Nil
      with 1(2) show ?thesis by (auto simp: exportFault_Nil)
    next
      case (Cons f rest)
      show ?thesis
      proof (cases "Lookup (tag f) ''export''")
        case True
        show ?thesis
        proof (cases "kindOf R (fieldType f) \<noteq> Interface \<or> Lookup (tag f) ''inject''
                      \<or> Lookup (tag f) ''autowire''")
          case bad: True
          with True Cons 1(2) have "fst y \<noteq> None" by (auto simp: Let_def split: if_splits)
          moreover from bad True have "exportFault R (f # rest)" by (simp add: exportFault_Cons)
          ultimately show ?thesis using Cons by simp
        next
          case False
          with True Cons 1(2) have "self R rest (Export (fieldType f) ex) = Some y"
            by (simp add: Let_def)
          from 1(1) [OF this] have "fst y = None \<longleftrightarrow> \<not> exportFault R rest" .
          moreover have "exportFault R (f # rest) \<longleftrightarrow> exportFault R rest"
            using True False by (auto simp: exportFault_Cons)
          ultimately show ?thesis using Cons by simp
        qed
      next
        case False
        show ?thesis
        proof (cases "\<not> anonymous f \<or> Lookup (tag f) ''inject'' \<or> Lookup (tag f) ''autowire''
                      \<or> kindOf R (Indirect R (fieldType f)) \<noteq> Struct")
          case True
          with False Cons 1(2) have "self R rest ex = Some y"
            by (auto simp: Let_def split: if_splits)
          from 1(1) [OF this] have "fst y = None \<longleftrightarrow> \<not> exportFault R rest" .
          moreover have "exportFault R (f # rest) \<longleftrightarrow> exportFault R rest"
            using True False by (auto simp: exportFault_Cons)
          ultimately show ?thesis using Cons by simp
        next
          case nest: False
          with False Cons 1(2)
          obtain e1 ex1 where a: "self R (fieldsOf R (Indirect R (fieldType f))) ex = Some (e1, ex1)"
            and b: "(case e1 of Some e \<Rightarrow> Some (Some e, ex1) | None \<Rightarrow> self R rest ex1) = Some y"
            by (auto simp: Let_def bind_eq_Some_conv)
          have via: "exportFault R (f # rest) \<longleftrightarrow>
              exportFault R (fieldsOf R (Indirect R (fieldType f))) \<or> exportFault R rest"
            using nest False by (auto simp: exportFault_Cons)
          from 1(1) [OF a]
          have in1: "e1 = None \<longleftrightarrow> \<not> exportFault R (fieldsOf R (Indirect R (fieldType f)))"
            by simp
          show ?thesis
          proof (cases e1)
            case None
            with b have "self R rest ex1 = Some y" by simp
            from 1(1) [OF this] have "fst y = None \<longleftrightarrow> \<not> exportFault R rest" .
            with in1 None via Cons show ?thesis by simp
          next
            case (Some e)
            with b have "fst y \<noteq> None" by auto
            with in1 Some via Cons show ?thesis by simp
          qed
        qed
      qed
    qed
  qed
qed

text \<open>
  \<^verbatim>\<open>autoExport\<close> returns when the structs it walks embed one another in a well-founded
  way: by induction along \<open>embeds\<close> over the struct, and over the fields still to visit.
\<close>

lemma autoExportFrom_returns_fields:
  assumes inner: "\<And>u ex. (u, t) \<in> embeds R \<Longrightarrow> autoExportFrom R (fieldsOf R u) ex \<noteq> None"
    and sub: "set fs \<subseteq> set (fieldsOf R t)"
  shows "autoExportFrom R fs ex \<noteq> None"
  using sub
proof (induction fs arbitrary: ex)
  case Nil
  show ?case by (subst autoExportFrom.simps) simp
next
  case (Cons f rest)
  from Cons.prems have f: "f \<in> set (fieldsOf R t)" and rest: "set rest \<subseteq> set (fieldsOf R t)"
    by simp_all
  note ih = Cons.IH [OF rest]
  show ?case
  proof (cases "Lookup (tag f) ''export''")
    case True
    with ih [of "Export (fieldType f) ex"] show ?thesis
      by (subst autoExportFrom.simps) (simp add: Let_def)
  next
    case False
    show ?thesis
    proof (cases "\<not> anonymous f \<or> Lookup (tag f) ''inject'' \<or> Lookup (tag f) ''autowire''
                  \<or> kindOf R (Indirect R (fieldType f)) \<noteq> Struct")
      case True
      with False ih [of ex] show ?thesis
        by (subst autoExportFrom.simps) (auto simp: Let_def)
    next
      case nest: False
      with False f have "(Indirect R (fieldType f), t) \<in> embeds R"
        unfolding embeds_def by blast
      from inner [OF this, of ex] obtain e1 ex1 where
        a: "autoExportFrom R (fieldsOf R (Indirect R (fieldType f))) ex = Some (e1, ex1)"
        by (cases "autoExportFrom R (fieldsOf R (Indirect R (fieldType f))) ex") auto
      from nest False a ih [of ex1] show ?thesis
        by (subst autoExportFrom.simps) (cases e1; simp add: Let_def)
    qed
  qed
qed

lemma autoExportFrom_returns:
  assumes "t \<in> Wellfounded.acc (embeds R)"
  shows "autoExportFrom R (fieldsOf R t) ex \<noteq> None"
proof -
  from assms have "\<forall>ex. autoExportFrom R (fieldsOf R t) ex \<noteq> None"
  proof (rule acc_induct)
    fix x
    assume ih: "\<forall>y. (y, x) \<in> embeds R \<longrightarrow> (\<forall>ex. autoExportFrom R (fieldsOf R y) ex \<noteq> None)"
    show "\<forall>ex. autoExportFrom R (fieldsOf R x) ex \<noteq> None"
    proof
      fix ex
      show "autoExportFrom R (fieldsOf R x) ex \<noteq> None"
        by (rule autoExportFrom_returns_fields [of x R]) (use ih in simp_all)
    qed
  qed
  then show ?thesis by simp
qed

text \<open>
  C5. \<^verbatim>\<open>autoExport\<close> returns on every struct from which no endless chain of
  embeddings starts. It returns an error exactly when an export tag is misused in the
  struct or in a struct reached through embedded fields that carry no tag. When it
  returns without an error, the exports of the bean are the ones it had together with
  exactly the interfaces that the struct exports in the sense of the spec: those of
  export-tagged fields, reached through any chain of embedded structs none of which is
  tagged \<^verbatim>\<open>export\<close>, \<^verbatim>\<open>inject\<close> or \<^verbatim>\<open>autowire\<close>. So the interface at the end of a
  chain \<^verbatim>\<open>A\<close> embeds \<^verbatim>\<open>B\<close> embeds \<^verbatim>\<open>C\<close> is added to the outermost bean, and nothing
  is added through an embedded field that carries an injection tag.
\<close>

theorem autoExport_surfaces_embedded_exports:
  assumes "t \<in> Wellfounded.acc (embeds R)"
  shows "\<exists>err ex'. autoExport R t ex = Some (err, ex') \<and>
           (err = None \<longleftrightarrow> \<not> exportFault R (fieldsOf R t)) \<and>
           (err = None \<longrightarrow> set ex' = set ex \<union> {i. exportsVia R (fieldsOf R t) i})"
proof -
  from autoExportFrom_returns [OF assms, of ex] obtain err ex' where
    r: "autoExportFrom R (fieldsOf R t) ex = Some (err, ex')"
    by (cases "autoExportFrom R (fieldsOf R t) ex") auto
  from autoExportFrom_fault [OF r]
  have a: "err = None \<longleftrightarrow> \<not> exportFault R (fieldsOf R t)" by simp
  from autoExportFrom_surfaces [OF r]
  have b: "err = None \<longrightarrow> set ex' = set ex \<union> {i. exportsVia R (fieldsOf R t) i}" by simp
  from r a b show ?thesis unfolding autoExport_def by blast
qed

lemma sample_embeds: "wf (embeds sampleReflect)"
proof (rule wf_subset [OF wf_measure [of "\<lambda>t. 3 - t"]])
  show "embeds sampleReflect \<subseteq> measure (\<lambda>t. 3 - t)"
    by (auto simp: embeds_def sample_defs Indirect_def Lookup_def split: if_splits)
qed

lemma sample_acc: "t \<in> Wellfounded.acc (embeds sampleReflect)"
  using sample_embeds by (simp add: wf_iff_acc)

theorem autoExport_surfaces_embedded_exports_witness:
  "0 \<in> Wellfounded.acc (embeds sampleReflect) \<and>
   5 \<in> Wellfounded.acc (embeds sampleReflect) \<and>
   autoExport sampleReflect 0 [] = Some (None, [3]) \<and>
   exportsVia sampleReflect (fieldsOf sampleReflect 0) 3 \<and>
   \<not> exportFault sampleReflect (fieldsOf sampleReflect 0) \<and>
   autoExport sampleReflect 5 [] = Some (None, []) \<and>
   \<not> exportsVia sampleReflect (fieldsOf sampleReflect 5) 3 \<and>
   exportsVia sampleReflect (fieldsOf sampleReflect 1) 3"
proof -
  have a: "autoExport sampleReflect 0 [] = Some (None, [3])"
    by (simp add: resolve_defs sample_defs autoExportFrom.simps)
  have b: "autoExport sampleReflect 5 [] = Some (None, [])"
    by (simp add: resolve_defs sample_defs autoExportFrom.simps)
  have c: "autoExport sampleReflect 1 [] = Some (None, [3])"
    by (simp add: resolve_defs sample_defs autoExportFrom.simps)
  from autoExport_surfaces_embedded_exports [OF sample_acc, of 0 "[]"] a
  have 1: "exportsVia sampleReflect (fieldsOf sampleReflect 0) 3"
    and 4: "\<not> exportFault sampleReflect (fieldsOf sampleReflect 0)" by auto
  from autoExport_surfaces_embedded_exports [OF sample_acc, of 5 "[]"] b
  have 2: "\<not> exportsVia sampleReflect (fieldsOf sampleReflect 5) 3" by auto
  from autoExport_surfaces_embedded_exports [OF sample_acc, of 1 "[]"] c
  have 3: "exportsVia sampleReflect (fieldsOf sampleReflect 1) 3" by auto
  from sample_acc [of 0] sample_acc [of 5] a b 1 2 3 4 show ?thesis by simp
qed

section \<open>Phases of the container\<close>

lemma resolveConfigersFrom_state:
  "resolveConfigersFrom n R X gs c = Some (out, c') \<Longrightarrow> state c' = state c"
proof (induction gs arbitrary: c)
  case Nil
  then show ?case by simp
next
  case (Cons g gs)
  let ?m = "condMatches (find R X (resolveBeanN n R X)) (cfgCond g) c"
  from Cons.prems obtain o1 c1 where m: "?m = Some (o1, c1)" by (cases ?m) auto
  have s1: "state c1 = state c" using resolveBeanN_state m by (rule condMatches_state)
  show ?case
  proof (cases o1)
    case (Panics msg)
    with m Cons.prems s1 show ?thesis by simp
  next
    case (Returns v)
    let ?c2 = "if v then c1\<lparr>configerList := configerList c1 @ [g]\<rparr> else c1"
    from Returns m Cons.prems have "resolveConfigersFrom n R X gs ?c2 = Some (out, c')" by simp
    from Cons.IH [OF this] s1 show ?thesis by (simp split: if_splits)
  qed
qed

lemma resolveConfigers_state:
  "resolveConfigers n R X c = Some (out, c') \<Longrightarrow> state c' = state c"
  unfolding resolveConfigers_def
  by (auto split: option.splits prod.splits outcome.splits dest: resolveConfigersFrom_state)

lemma resolveBeansFrom_state:
  "resolveBeansFrom n R X es c = Some (out, c') \<Longrightarrow> state c' = state c"
proof (induction es arbitrary: c)
  case Nil
  then show ?case by simp
next
  case (Cons e es)
  show ?case
  proof (cases "e \<in> set (beansById c)")
    case False
    with Cons.prems have "resolveBeansFrom n R X es c = Some (out, c')" by simp
    then show ?thesis by (rule Cons.IH)
  next
    case True
    with Cons.prems obtain o1 c1 where r: "resolveBeanN n R X (snd e) c = Some (o1, c1)"
      by (cases "resolveBeanN n R X (snd e) c") auto
    then have ev: "state c1 = state c" by (rule resolveBeanN_state)
    show ?thesis
    proof (cases "o1 = Returns None")
      case False
      with True r Cons.prems have "c' = c1"
        by (cases o1) (auto split: option.splits)
      with ev show ?thesis by simp
    next
      case ok: True
      with True r Cons.prems have "resolveBeansFrom n R X es c1 = Some (out, c')" by simp
      from ev Cons.IH [OF this] show ?thesis by simp
    qed
  qed
qed

lemma Refresh_state:
  assumes "Refresh n R X c w = Some (out, c', w')" and "state c = Unrefreshed"
  shows "state c' \<noteq> Unrefreshed"
proof -
  let ?c1 = "c\<lparr>state := Refreshing\<rparr>"
  obtain o2 c2 where r2: "registerBeans ?c1 = (o2, c2)" by (cases "registerBeans ?c1")
  from registerBeansFrom_frame [of "beans ?c1" ?c1 o2 c2] r2
  have s2: "state c2 = Refreshing" by (simp add: registerBeans_def)
  show ?thesis
  proof (cases o2)
    case (Panics m)
    with assms r2 s2 show ?thesis by (simp add: Refresh_def)
  next
    case (Returns u)
    with assms r2 obtain o3 c3 where r3: "resolveConfigers n R X c2 = Some (o3, c3)"
      by (cases "resolveConfigers n R X c2") (auto simp: Refresh_def)
    from resolveConfigers_state [OF r3] s2 have s3: "state c3 = Refreshing" by simp
    show ?thesis
    proof (cases o3)
      case (Panics m)
      with assms r2 Returns r3 s3 show ?thesis by (simp add: Refresh_def)
    next
      case u3: (Returns u')
      with assms r2 Returns r3 obtain o4 c4 where r4: "resolveBeans n R X c3 = Some (o4, c4)"
        by (cases "resolveBeans n R X c3") (auto simp: Refresh_def)
      from resolveBeansFrom_state [of n R X "beansById c3" c3 o4 c4] r4
      have "state c4 = state c3" by (simp add: resolveBeans_def)
      with s3 have s4: "state c4 = Refreshing" by simp
      from assms r2 Returns r3 u3 r4
      have "c' = c4 \<or> c' = c4\<lparr>destroyerList := sortDestroyers X w', state := Refreshed\<rparr>"
        by (auto simp: Refresh_def split: outcome.splits option.splits prod.splits)
      with s4 show ?thesis by auto
    qed
  qed
qed

text \<open>
  C6. Once the state is no longer Unrefreshed, \<^verbatim>\<open>Object\<close>, \<^verbatim>\<open>Provide\<close>, \<^verbatim>\<open>Register\<close>,
  \<^verbatim>\<open>Config\<close>, \<^verbatim>\<open>Load\<close> and \<^verbatim>\<open>Property\<close> panic with "should call before Refreshing"
  and change nothing, and \<^verbatim>\<open>Refresh\<close> panics with "already refreshed". While the state
  is Unrefreshed, \<^verbatim>\<open>find\<close> panics with "should call after Refreshing". And a call of
  \<^verbatim>\<open>Refresh\<close> that comes back, returning or panicking, leaves a container on which the
  next call of \<^verbatim>\<open>Refresh\<close> panics with "already refreshed".
\<close>

theorem phase_gating:
  "(state c \<noteq> Unrefreshed \<longrightarrow>
      Object newBean c = (Panics ''should call before Refreshing'', c) \<and>
      Provide newBean c = (Panics ''should call before Refreshing'', c) \<and>
      Register b c = (Panics ''should call before Refreshing'', c) \<and>
      Config isFunc retNothing retError g c = (Panics ''should call before Refreshing'', c) \<and>
      Load file c = (Panics ''should call before Refreshing'', c) \<and>
      Property key v c = (Panics ''should call before Refreshing'', c) \<and>
      Refresh n R X c w = Some (Panics ''already refreshed'', c, w)) \<and>
   (state c = Unrefreshed \<longrightarrow>
      find R X rb sel c = Some (Panics ''should call after Refreshing'', c)) \<and>
   (state c = Unrefreshed \<longrightarrow> Refresh n R X c w = Some (out, c', w') \<longrightarrow>
      Refresh m R X c' w2 = Some (Panics ''already refreshed'', c', w2))"
proof (intro conjI impI)
  assume s: "state c = Unrefreshed" and r: "Refresh n R X c w = Some (out, c', w')"
  from Refresh_state [OF r s]
  show "Refresh m R X c' w2 = Some (Panics ''already refreshed'', c', w2)"
    by (simp add: Refresh_def)
qed (simp_all add: Object_def Provide_def Register_def Config_def Load_def Property_def
      Refresh_def find_def callAfterRefreshing_def callBeforeRefreshing_def)

lemma sample_refresh:
  "\<exists>c' w'. Refresh 2 sampleReflect sampleExt ((New sampleHeap)\<lparr>beans := [1, 0]\<rparr>) []
     = Some (Returns (), c', w') \<and> state c' = Refreshed \<and> w' = [0]"
  by (simp add: Refresh_def registerBeans_def resolveConfigers_def resolveBeans_def
      runConfigers_def wireBeans_def numeral_2_eq_2 resolve_defs sample_defs
      autoExportFrom.simps)

theorem phase_gating_witness:
  "state sampleContainer \<noteq> Unrefreshed \<and>
   Register 7 sampleContainer = (Panics ''should call before Refreshing'', sampleContainer) \<and>
   Refresh 0 sampleReflect sampleExt sampleContainer [] =
     Some (Panics ''already refreshed'', sampleContainer, []) \<and>
   state (New sampleHeap :: nat list Container) = Unrefreshed \<and>
   find sampleReflect sampleExt (resolveBeanN 0 sampleReflect sampleExt) (SelString ''x'')
     (New sampleHeap) = Some (Panics ''should call after Refreshing'', New sampleHeap) \<and>
   (\<exists>c' w'. Refresh 2 sampleReflect sampleExt ((New sampleHeap)\<lparr>beans := [1, 0]\<rparr>) []
              = Some (Returns (), c', w') \<and>
            Refresh 2 sampleReflect sampleExt c' w' = Some (Panics ''already refreshed'', c', w'))"
proof -
  have s: "state sampleContainer \<noteq> Unrefreshed" by (simp add: sample_defs)
  have u: "state (New sampleHeap :: nat list Container) = Unrefreshed" by (simp add: New_def)
  have u2: "state ((New sampleHeap)\<lparr>beans := [1, 0]\<rparr> :: nat list Container) = Unrefreshed"
    by (simp add: New_def)
  obtain c' w' where r: "Refresh 2 sampleReflect sampleExt ((New sampleHeap)\<lparr>beans := [1, 0]\<rparr>) []
     = Some (Returns (), c', w')" using sample_refresh by blast
  note g1 = phase_gating [where c = sampleContainer and b = 7 and n = 0 and R = sampleReflect
      and X = sampleExt and w = "[]"]
  note g2 = phase_gating [where c = "New sampleHeap" and R = sampleReflect and X = sampleExt
      and rb = "resolveBeanN 0 sampleReflect sampleExt" and sel = "SelString ''x''"]
  note g3 = phase_gating [where c = "(New sampleHeap)\<lparr>beans := [1, 0]\<rparr>" and n = 2
      and R = sampleReflect and X = sampleExt and w = "[]" and out = "Returns ()" and c' = c'
      and w' = w' and m = 2 and ?w2.0 = w']
  from g1 s have a: "Register 7 sampleContainer = (Panics ''should call before Refreshing'', sampleContainer)"
    "Refresh 0 sampleReflect sampleExt sampleContainer [] =
     Some (Panics ''already refreshed'', sampleContainer, [])" by blast+
  from g2 u have b: "find sampleReflect sampleExt (resolveBeanN 0 sampleReflect sampleExt)
     (SelString ''x'') (New sampleHeap) = Some (Panics ''should call after Refreshing'', New sampleHeap)"
    by blast
  from g3 u2 r have c: "Refresh 2 sampleReflect sampleExt c' w' = Some (Panics ''already refreshed'', c', w')"
    by blast
  from s a u b r c show ?thesis by blast
qed

section \<open>Closing the container\<close>

text \<open>
  \<^verbatim>\<open>Wait\<close> returns at the first moment the counter is zero, and never when there is no
  such moment.
\<close>

lemma wgWait_at:
  "k \<le> length evs \<Longrightarrow> wgAfter (take k evs) n = 0 \<Longrightarrow>
   \<forall>j < k. wgAfter (take j evs) n \<noteq> 0 \<Longrightarrow>
   wgWait evs n w = Some (drop k evs, worldAfter (take k evs) w)"
proof (induction evs arbitrary: k n w)
  case Nil
  then show ?case by simp
next
  case (Cons e es)
  show ?case
  proof (cases k)
    case 0
    with Cons.prems show ?thesis by simp
  next
    case (Suc k')
    with Cons.prems(3) [rule_format, of 0] have n: "n \<noteq> 0" by simp
    let ?n' = "case e of TaskSpawned \<Rightarrow> n + 1 | TaskExited \<Rightarrow> n - 1 | TaskStep f \<Rightarrow> n"
    let ?w' = "case e of TaskSpawned \<Rightarrow> w | TaskExited \<Rightarrow> w | TaskStep f \<Rightarrow> f w"
    from Suc Cons.prems have a: "k' \<le> length es" "wgAfter (take k' es) ?n' = 0" by simp_all
    have b: "\<forall>j < k'. wgAfter (take j es) ?n' \<noteq> 0"
    proof (intro allI impI)
      fix j assume "j < k'"
      with Suc Cons.prems(3) [rule_format, of "Suc j"] show "wgAfter (take j es) ?n' \<noteq> 0"
        by simp
    qed
    from Cons.IH [OF a b, of ?w']
    have "wgWait es ?n' ?w' = Some (drop k' es, worldAfter (take k' es) ?w')" .
    moreover have "wgWait (e # es) n w = wgWait es ?n' ?w'" using n by (cases e) simp_all
    ultimately show ?thesis using Suc by simp
  qed
qed

lemma wgWait_never:
  "\<forall>k \<le> length evs. wgAfter (take k evs) n \<noteq> 0 \<Longrightarrow> wgWait evs n w = None"
proof (induction evs arbitrary: n w)
  case Nil
  then show ?case by simp
next
  case (Cons e es)
  from Cons.prems [rule_format, of 0] have n: "n \<noteq> 0" by simp
  let ?n' = "case e of TaskSpawned \<Rightarrow> n + 1 | TaskExited \<Rightarrow> n - 1 | TaskStep f \<Rightarrow> n"
  let ?w' = "case e of TaskSpawned \<Rightarrow> w | TaskExited \<Rightarrow> w | TaskStep f \<Rightarrow> f w"
  have "\<forall>k \<le> length es. wgAfter (take k es) ?n' \<noteq> 0"
  proof (intro allI impI)
    fix k assume "k \<le> length es"
    with Cons.prems [rule_format, of "Suc k"] show "wgAfter (take k es) ?n' \<noteq> 0" by simp
  qed
  from Cons.IH [OF this, of ?w'] have "wgWait es ?n' ?w' = None" .
  moreover have "wgWait (e # es) n w = wgWait es ?n' ?w'" using n by (cases e) simp_all
  ultimately show ?case by simp
qed

text \<open>
  C8 fails as stated: \<^verbatim>\<open>Close\<close> checks \<^verbatim>\<open>callAfterRefreshing\<close>, so on the sample
  container, whose state is Refreshing and not Refreshed, it runs to the end.
\<close>

theorem Close_gate_and_order_counterexample:
  "state sampleContainer = Refreshing \<and>
   map_option fst (Close sampleContainer [] (\<lambda>done. [])) = Some (Returns ())"
  by (simp add: Close_def callAfterRefreshing_def runDestroyers_def sample_defs)

text \<open>
  C8, amended. On a container that is still Unrefreshed \<^verbatim>\<open>Close\<close> panics with "should
  call after Refreshing", having cancelled nothing and run no destroyer. In the states
  Refreshing and Refreshed it passes the gate and cancels the shared context once;
  the supervised tasks go on as they do under a cancelled context, and \<^verbatim>\<open>Close\<close>
  waits on the wait group. If the counter never comes to zero, \<^verbatim>\<open>Close\<close> does not
  return. If \<open>k\<close> events bring the counter to zero for the first time, \<^verbatim>\<open>Close\<close> comes
  back with the context cancelled once more than before, and the destroyers were run
  from the world that those \<open>k\<close> events left: the calls are calls of the entries of the
  destroyer list from the front, in list order, each on the world left by the call
  before it, the errors returned are the errors logged, and \<^verbatim>\<open>Close\<close> returns when
  every entry has been run, or panics at the first destroyer that panics.
\<close>

theorem Close_gate_and_order:
  "(state c = Unrefreshed \<longrightarrow>
      Close c w tasks = Some (Panics ''should call after Refreshing'', c, w, [], [])) \<and>
   (state c \<noteq> Unrefreshed \<longrightarrow>
      ((\<forall>k \<le> length (tasks True). wgAfter (take k (tasks True)) (wg c) \<noteq> 0) \<longrightarrow>
          Close c w tasks = None) \<and>
      (\<forall>k \<le> length (tasks True).
          wgAfter (take k (tasks True)) (wg c) = 0 \<and>
          (\<forall>j < k. wgAfter (take j (tasks True)) (wg c) \<noteq> 0) \<longrightarrow>
          (\<exists>out w' calls logged ws.
              Close c w tasks =
                Some (out, c\<lparr>cancelled := cancelled c + 1, wg := 0\<rparr>, w', calls, logged) \<and>
              length ws = Suc (length calls) \<and>
              ws ! 0 = worldAfter (take k (tasks True)) w \<and>
              length calls \<le> length (destroyerList c) \<and>
              (\<forall>i < length calls.
                  run (destroyerList c ! i) (ws ! i) = (Returns (snd (calls ! i)), ws ! Suc i) \<and>
                  fst (calls ! i) = dbean (destroyerList c ! i)) \<and>
              logged = List.map_filter snd calls \<and>
              (case out of
                 Returns u \<Rightarrow> length calls = length (destroyerList c) \<and> w' = ws ! length calls
               | Panics m \<Rightarrow> length calls < length (destroyerList c) \<and>
                   run (destroyerList c ! length calls) (ws ! length calls) = (Panics m, w')))))"
proof (intro conjI impI allI)
  assume "state c = Unrefreshed"
  then show "Close c w tasks = Some (Panics ''should call after Refreshing'', c, w, [], [])"
    by (simp add: Close_def callAfterRefreshing_def)
next
  assume s: "state c \<noteq> Unrefreshed"
    and "\<forall>k \<le> length (tasks True). wgAfter (take k (tasks True)) (wg c) \<noteq> 0"
  then have "wgWait (tasks True) (wg c) w = None" by (intro wgWait_never)
  with s show "Close c w tasks = None" by (simp add: Close_def callAfterRefreshing_def)
next
  fix k
  assume s: "state c \<noteq> Unrefreshed" and k: "k \<le> length (tasks True)"
    and z: "wgAfter (take k (tasks True)) (wg c) = 0 \<and>
            (\<forall>j < k. wgAfter (take j (tasks True)) (wg c) \<noteq> 0)"
  let ?w1 = "worldAfter (take k (tasks True)) w"
  let ?c2 = "c\<lparr>cancelled := cancelled c + 1, wg := 0\<rparr>"
  from k z have wt: "wgWait (tasks True) (wg c) w = Some (drop k (tasks True), ?w1)"
    by (intro wgWait_at) simp_all
  obtain out w' calls logged where
    d: "runDestroyersFrom (destroyerList c) ?w1 = (out, w', calls, logged)"
    by (cases "runDestroyersFrom (destroyerList c) ?w1") auto
  from s wt d have cl: "Close c w tasks = Some (out, ?c2, w', calls, logged)"
    by (simp add: Close_def callAfterRefreshing_def runDestroyers_def)
  from runDestroyersFrom_trace [OF d] obtain ws where
    "length ws = Suc (length calls) \<and> ws ! 0 = ?w1 \<and>
     length calls \<le> length (destroyerList c) \<and>
     (\<forall>i < length calls.
         run (destroyerList c ! i) (ws ! i) = (Returns (snd (calls ! i)), ws ! Suc i) \<and>
         fst (calls ! i) = dbean (destroyerList c ! i)) \<and>
     logged = List.map_filter snd calls \<and>
     (case out of
        Returns u \<Rightarrow> length calls = length (destroyerList c) \<and> w' = ws ! length calls
      | Panics m \<Rightarrow> length calls < length (destroyerList c) \<and>
          run (destroyerList c ! length calls) (ws ! length calls) = (Panics m, w'))"
    by blast
  with cl show "\<exists>out w' calls logged ws.
              Close c w tasks =
                Some (out, c\<lparr>cancelled := cancelled c + 1, wg := 0\<rparr>, w', calls, logged) \<and>
              length ws = Suc (length calls) \<and>
              ws ! 0 = worldAfter (take k (tasks True)) w \<and>
              length calls \<le> length (destroyerList c) \<and>
              (\<forall>i < length calls.
                  run (destroyerList c ! i) (ws ! i) = (Returns (snd (calls ! i)), ws ! Suc i) \<and>
                  fst (calls ! i) = dbean (destroyerList c ! i)) \<and>
              logged = List.map_filter snd calls \<and>
              (case out of
                 Returns u \<Rightarrow> length calls = length (destroyerList c) \<and> w' = ws ! length calls
               | Panics m \<Rightarrow> length calls < length (destroyerList c) \<and>
                   run (destroyerList c ! length calls) (ws ! length calls) = (Panics m, w'))"
    by blast
qed

text \<open>
  Three runs. On a new container \<^verbatim>\<open>Close\<close> panics at the gate. On the sample
  container with one supervised task that never ends, it does not return. With a task
  that appends \<open>9\<close> to the world and ends once the context is cancelled, and two
  destroyers of which the first fails, both destroyers run after the task, in order.
\<close>

theorem Close_gate_and_order_witness:
  "state (New sampleHeap :: nat list Container) = Unrefreshed \<and>
   Close (New sampleHeap :: nat list Container) [] (\<lambda>done. [])
     = Some (Panics ''should call after Refreshing'', New sampleHeap, [], [], []) \<and>
   state (Go sampleContainer) \<noteq> Unrefreshed \<and>
   Close (Go sampleContainer) [] (\<lambda>done. []) = None \<and>
   Close
      ((Go sampleContainer)\<lparr>destroyerList :=
          [\<lparr>dbean = 1, run = (\<lambda>w. (Returns (Some ''close failed''), w @ [1]))\<rparr>,
           \<lparr>dbean = 2, run = (\<lambda>w. (Returns None, w @ [2]))\<rparr>]\<rparr>) []
      (\<lambda>done. if done then [TaskStep (\<lambda>w. w @ [9]), TaskExited, TaskSpawned] else [])
      = Some (Returns (),
          (Go sampleContainer)\<lparr>destroyerList :=
             [\<lparr>dbean = 1, run = (\<lambda>w. (Returns (Some ''close failed''), w @ [1]))\<rparr>,
              \<lparr>dbean = 2, run = (\<lambda>w. (Returns None, w @ [2]))\<rparr>],
             cancelled := 1, wg := 0\<rparr>,
          [9, 1, 2], [(1, Some ''close failed''), (2, None)], [''close failed''])"
proof -
  let ?ds = "[\<lparr>dbean = 1, run = (\<lambda>w. (Returns (Some ''close failed''), w @ [1::nat]))\<rparr>,
           \<lparr>dbean = 2, run = (\<lambda>w. (Returns None, w @ [2]))\<rparr>]"
  let ?c = "(Go sampleContainer)\<lparr>destroyerList := ?ds\<rparr>"
  let ?t = "\<lambda>done. if done then [TaskStep (\<lambda>w. w @ [9::nat]), TaskExited, TaskSpawned] else []"
  have u: "state (New sampleHeap :: nat list Container) = Unrefreshed" by (simp add: New_def)
  have s: "state (Go sampleContainer) \<noteq> Unrefreshed" "state ?c \<noteq> Unrefreshed"
    by (simp_all add: Go_def sample_defs)
  from Close_gate_and_order [of "New sampleHeap :: nat list Container" "[]" "\<lambda>done. []"] u
  have g: "Close (New sampleHeap :: nat list Container) [] (\<lambda>done. [])
      = Some (Panics ''should call after Refreshing'', New sampleHeap, [], [], [])"
    by blast
  have "\<forall>k \<le> length ([] :: nat list taskEvent list).
      wgAfter (take k ([] :: nat list taskEvent list)) (wg (Go sampleContainer)) \<noteq> 0"
    by (simp add: Go_def)
  with Close_gate_and_order [of "Go sampleContainer" "[]" "\<lambda>done. []"] s(1)
  have n: "Close (Go sampleContainer) [] (\<lambda>done. []) = None" by blast
  have k: "2 \<le> length (?t True)" by simp
  have z: "wgAfter (take 2 (?t True)) (wg ?c) = 0 \<and>
      (\<forall>j < 2. wgAfter (take j (?t True)) (wg ?c) \<noteq> 0)"
    by (simp add: Go_def sample_defs numeral_2_eq_2 less_Suc_eq)
  from Close_gate_and_order [of ?c "[]" ?t] s(2) k z
  have "\<exists>out w' calls logged.
      Close ?c [] ?t = Some (out, ?c\<lparr>cancelled := cancelled ?c + 1, wg := 0\<rparr>, w', calls, logged)"
    by blast
  moreover have "Close ?c [] ?t = Some (Returns (), ?c\<lparr>cancelled := 1, wg := 0\<rparr>,
      [9, 1, 2], [(1, Some ''close failed''), (2, None)], [''close failed''])"
    by (simp add: Close_def callAfterRefreshing_def runDestroyers_def Go_def sample_defs)
  ultimately show ?thesis using u g s(1) n by simp
qed

section \<open>Resolution returns\<close>

lemma filter_length_mono:
  "\<forall>x \<in> set xs. P x \<longrightarrow> Q x \<Longrightarrow> length (filter P xs) \<le> length (filter Q xs)"
  by (induction xs) auto

lemma filter_length_less:
  "\<forall>x \<in> set xs. P x \<longrightarrow> Q x \<Longrightarrow> \<exists>x \<in> set xs. Q x \<and> \<not> P x \<Longrightarrow>
   length (filter P xs) < length (filter Q xs)"
proof (induction xs)
  case Nil
  then show ?case by simp
next
  case (Cons x xs)
  show ?case
  proof (cases "\<exists>y \<in> set xs. Q y \<and> \<not> P y")
    case True
    with Cons have "length (filter P xs) < length (filter Q xs)" by simp
    with Cons.prems(1) show ?thesis by auto
  next
    case False
    with Cons.prems(2) have x: "Q x" "\<not> P x" by auto
    from Cons.prems(1) have "length (filter P xs) \<le> length (filter Q xs)"
      by (simp add: filter_length_mono)
    with x show ?thesis by simp
  qed
qed

lemma evolves_numDefault:
  assumes "evolves c c'"
  shows "numDefault c' \<le> numDefault c"
proof -
  from evolves_byId [OF assms] obtain P where P: "beansById c' = filter P (beansById c)" by blast
  have imp: "\<And>q. status (store c' q) = Default \<Longrightarrow> status (store c q) = Default"
    using evolves_same [OF assms] by force
  have "numDefault c' =
      length (filter (\<lambda>e. P e \<and> status (store c' (snd e)) = Default) (beansById c))"
    unfolding numDefault_def P by (simp add: conj_commute)
  also have "\<dots> \<le> length (filter (\<lambda>e. status (store c (snd e)) = Default) (beansById c))"
    by (rule filter_length_mono) (auto dest: imp)
  finally show ?thesis by (simp add: numDefault_def)
qed

lemma setStatus_numDefault:
  assumes "status (store c b) = Default" and "b \<in> snd ` set (beansById c)"
  shows "numDefault (setStatus b Resolving c) < numDefault c"
  unfolding numDefault_def
proof -
  have "length (filter (\<lambda>e. status (store (setStatus b Resolving c) (snd e)) = Default)
                  (beansById c))
      < length (filter (\<lambda>e. status (store c (snd e)) = Default) (beansById c))"
  proof (rule filter_length_less)
    show "\<forall>e \<in> set (beansById c).
        status (store (setStatus b Resolving c) (snd e)) = Default \<longrightarrow>
        status (store c (snd e)) = Default"
      by (auto simp: setStatus_def split: if_splits)
    from assms show "\<exists>e \<in> set (beansById c). status (store c (snd e)) = Default \<and>
        status (store (setStatus b Resolving c) (snd e)) \<noteq> Default"
      by (auto simp: setStatus_def)
  qed
  then show "length (filter (\<lambda>e. status (store (setStatus b Resolving c) (snd e)) = Default)
                  (beansById (setStatus b Resolving c)))
      < length (filter (\<lambda>e. status (store c (snd e)) = Default) (beansById c))"
    by (simp add: setStatus_def)
qed

lemma autoExportBean_type:
  "beanType d = beanType d' \<Longrightarrow>
   autoExportBean R (d\<lparr>exports := ex\<rparr>) = autoExportBean R (d'\<lparr>exports := ex\<rparr>)"
  by (simp add: autoExportBean_def Let_def)

lemma evolves_autoExportReturns:
  assumes "evolves c c'" and "autoExportReturns R c"
  shows "autoExportReturns R c'"
  unfolding autoExportReturns_def
proof (intro allI)
  fix q ex
  from evolves_static [OF assms(1), of q] have "beanType (store c' q) = beanType (store c q)"
    by simp
  from autoExportBean_type [OF this] assms(2)
  show "autoExportBean R ((store c' q)\<lparr>exports := ex\<rparr>) \<noteq> None"
    unfolding autoExportReturns_def by simp
qed

lemma resolveBeanKept_returns:
  assumes "autoExportReturns R c2"
  shows "resolveBeanKept R b c2 \<noteq> None"
proof -
  let ?c3 = "indexByType (beanType (store c2 b)) b c2"
  have "store ?c3 b = (store c2 b)\<lparr>exports := exports (store c2 b)\<rparr>"
    by (simp add: indexByType_def)
  with assms have "autoExportBean R (store ?c3 b) \<noteq> None"
    unfolding autoExportReturns_def by metis
  then show ?thesis
    unfolding resolveBeanKept_def Let_def
    by (auto split: option.splits prod.splits outcome.splits)
qed

lemma finderLoop_returns:
  assumes ok: "rbOK rb"
    and tot: "\<And>b c. autoExportReturns R c \<Longrightarrow> numDefault c < n \<Longrightarrow>
                b \<in> snd ` set (beansById c) \<Longrightarrow> rb b c \<noteq> None"
  shows "autoExportReturns R c \<Longrightarrow> numDefault c < n \<Longrightarrow> finderLoop rb fn es result c \<noteq> None"
proof (induction es arbitrary: result c)
  case Nil
  show ?case by simp
next
  case (Cons e es)
  show ?case
  proof (cases "e \<in> set (beansById c) \<and> status (store c (snd e)) \<noteq> Resolving \<and> fn (store c (snd e))")
    case False
    have "finderLoop rb fn (e # es) result c = finderLoop rb fn es result c"
      using False by auto
    with Cons.IH [OF Cons.prems] show ?thesis by simp
  next
    case True
    then have "snd e \<in> snd ` set (beansById c)" by force
    from tot [OF Cons.prems this] obtain o1 c1 where r: "rb (snd e) c = Some (o1, c1)" by auto
    with ok have ev: "evolves c c1" unfolding rbOK_def by blast
    from ev Cons.prems(1) have a1: "autoExportReturns R c1" by (rule evolves_autoExportReturns)
    from evolves_numDefault [OF ev] Cons.prems(2) have n1: "numDefault c1 < n" by simp
    show ?thesis
    proof (cases "o1 = Returns None")
      case False
      with True r show ?thesis by (cases o1) (auto split: option.splits)
    next
      case ok1: True
      with True r have "finderLoop rb fn (e # es) result c =
          finderLoop rb fn es
            (if status (store c1 (snd e)) \<noteq> Deleted then result @ [snd e] else result) c1"
        by simp
      with Cons.IH [OF a1 n1] show ?thesis by simp
    qed
  qed
qed

lemma find_returns:
  assumes ok: "rbOK rb"
    and tot: "\<And>b c. autoExportReturns R c \<Longrightarrow> numDefault c < n \<Longrightarrow>
                b \<in> snd ` set (beansById c) \<Longrightarrow> rb b c \<noteq> None"
    and a: "autoExportReturns R c" and m: "numDefault c < n"
  shows "find R X rb sel c \<noteq> None"
  unfolding find_def callAfterRefreshing_def Let_def
  using finderLoop_returns [of rb R n c, OF ok tot a m]
  by (auto split: selector.splits)

lemma evalCond_returns:
  assumes ok: "rbOK rb"
    and tot: "\<And>b c. autoExportReturns R c \<Longrightarrow> numDefault c < n \<Longrightarrow>
                b \<in> snd ` set (beansById c) \<Longrightarrow> rb b c \<noteq> None"
  shows "autoExportReturns R c \<Longrightarrow> numDefault c < n \<Longrightarrow> evalCond (find R X rb) cd c \<noteq> None"
proof (induction cd arbitrary: c)
  case (CondReturn v)
  show ?case by simp
next
  case (CondPanic m)
  show ?case by simp
next
  case (CondFind sel k)
  from find_returns [of rb R n c X sel, OF ok tot CondFind.prems]
  obtain o1 c1 where r: "find R X rb sel c = Some (o1, c1)" by auto
  from ok r have ev: "evolves c c1" by (rule find_evolves)
  from ev CondFind.prems(1) have a1: "autoExportReturns R c1" by (rule evolves_autoExportReturns)
  from evolves_numDefault [OF ev] CondFind.prems(2) have n1: "numDefault c1 < n" by simp
  show ?case
  proof (cases o1)
    case (Panics m)
    with r show ?thesis by simp
  next
    case (Returns res)
    have "k res \<in> range k" by simp
    from CondFind.IH [OF this a1 n1] Returns r show ?thesis by simp
  qed
qed

lemma resolveBeanN_returns:
  "autoExportReturns R c \<Longrightarrow> numDefault c < n \<Longrightarrow>
   b \<in> snd ` set (beansById c) \<or> status (store c b) \<noteq> Default \<Longrightarrow>
   resolveBeanN n R X b c \<noteq> None"
proof (induction n arbitrary: b c)
  case 0
  then show ?case by simp
next
  case (Suc n)
  show ?case
  proof (cases "statusOrd (status (store c b)) \<ge> statusOrd Resolving")
    case True
    then show ?thesis by (simp add: resolveBeanStep_def)
  next
    case False
    then have d: "status (store c b) = Default" by (cases "status (store c b)") simp_all
    with Suc.prems(3) have idx: "b \<in> snd ` set (beansById c)" by simp
    let ?c1 = "setStatus b Resolving c"
    from setStatus_numDefault [OF d idx] Suc.prems(2) have n1: "numDefault ?c1 < n" by simp
    have a1: "autoExportReturns R ?c1"
      unfolding autoExportReturns_def
    proof (intro allI)
      fix q ex
      have "beanType (store ?c1 q) = beanType (store c q)" by (simp add: setStatus_def)
      from autoExportBean_type [OF this] Suc.prems(1)
      show "autoExportBean R ((store ?c1 q)\<lparr>exports := ex\<rparr>) \<noteq> None"
        unfolding autoExportReturns_def by simp
    qed
    have tot: "\<And>b c. autoExportReturns R c \<Longrightarrow> numDefault c < n \<Longrightarrow>
                b \<in> snd ` set (beansById c) \<Longrightarrow> resolveBeanN n R X b c \<noteq> None"
      using Suc.IH by blast
    have "condMatches (find R X (resolveBeanN n R X)) (cond (store ?c1 b)) ?c1 \<noteq> None"
      unfolding condMatches_def
      using evalCond_returns [where rb = "resolveBeanN n R X" and n = n and X = X,
          OF resolveBeanN_rbOK tot a1 n1]
      by (auto split: option.splits)
    then obtain o2 c2 where
      cm: "condMatches (find R X (resolveBeanN n R X)) (cond (store ?c1 b)) ?c1 = Some (o2, c2)"
      by auto
    from resolveBeanN_rbOK cm have "evolves ?c1 c2" by (rule condMatches_evolves)
    with a1 have "autoExportReturns R c2" by (rule evolves_autoExportReturns [rotated])
    then have "resolveBeanKept R b c2 \<noteq> None" by (rule resolveBeanKept_returns)
    with False cm show ?thesis
      by (auto simp: resolveBeanStep_def Let_def split: outcome.splits bool.splits)
  qed
qed

text \<open>
  The bound on the depth is not a restriction: from any container in which
  \<^verbatim>\<open>autoExport\<close> comes back on the bean types, \<^verbatim>\<open>resolveBean\<close> on a bean of the identity
  index and \<^verbatim>\<open>find\<close> come back (returning or panicking) within a depth of one more
  than the number of index entries still at Default.
\<close>

theorem resolution_returns:
  assumes "autoExportReturns R c"
  shows "(b \<in> snd ` set (beansById c) \<longrightarrow>
            (\<exists>out c'. resolveBeanN (Suc (numDefault c)) R X b c = Some (out, c'))) \<and>
         (\<exists>fout c'. find R X (resolveBeanN (Suc (numDefault c)) R X) sel c = Some (fout, c'))"
proof (intro conjI impI)
  assume "b \<in> snd ` set (beansById c)"
  with resolveBeanN_returns [where n = "Suc (numDefault c)" and b = b and X = X and c = c] assms
  show "\<exists>out c'. resolveBeanN (Suc (numDefault c)) R X b c = Some (out, c')" by auto
next
  have tot: "\<And>b c'. autoExportReturns R c' \<Longrightarrow> numDefault c' < Suc (numDefault c) \<Longrightarrow>
      b \<in> snd ` set (beansById c') \<Longrightarrow> resolveBeanN (Suc (numDefault c)) R X b c' \<noteq> None"
    using resolveBeanN_returns by blast
  from find_returns [where rb = "resolveBeanN (Suc (numDefault c)) R X" and n = "Suc (numDefault c)"
      and X = X and sel = sel, OF resolveBeanN_rbOK tot assms lessI]
  show "\<exists>fout c'. find R X (resolveBeanN (Suc (numDefault c)) R X) sel c = Some (fout, c')"
    by auto
qed

lemma sample_autoExportReturns: "autoExportReturns sampleReflect sampleContainer"
  unfolding autoExportReturns_def
  by (simp add: resolve_defs sample_defs autoExportFrom.simps)

lemma sample_resolution_returns:
  "\<exists>out c'. resolveBeanN (Suc (numDefault sampleContainer)) sampleReflect sampleExt 1 sampleContainer
     = Some (out, c')"
proof -
  have "(1::nat) \<in> snd ` set (beansById sampleContainer)" by (simp add: sample_defs)
  with resolution_returns [OF sample_autoExportReturns, of 1 sampleExt] show ?thesis by blast
qed

text \<open>
  \<^verbatim>\<open>autoExport\<close> comes back on every bean when the structs embed one another in a
  well-founded way.
\<close>

lemma wf_autoExportReturns:
  assumes "wf (embeds R)"
  shows "autoExportReturns R c"
  unfolding autoExportReturns_def autoExportBean_def autoExport_def Let_def
  using assms autoExportFrom_returns [of _ R] by (simp add: wf_iff_acc)

section \<open>Deleted beans\<close>

lemma afterwards_refl: "afterwards c c"
  by (simp add: afterwards_def)

lemma afterwards_trans: "afterwards c c' \<Longrightarrow> afterwards c' c'' \<Longrightarrow> afterwards c c''"
  by (simp add: afterwards_def)

lemma writes_afterwards: "writes c c' \<Longrightarrow> afterwards c c'"
  by (simp add: afterwards_def)

lemma afterwards_step: "afterwards c c' \<Longrightarrow> writes c' c'' \<Longrightarrow> afterwards c c''"
  by (simp add: afterwards_def)

text \<open>
  A descriptor that is Deleted and in no index stays so under every write, since every
  write is made for a bean that is Default or Resolving.
\<close>

lemma writes_stays_deleted:
  assumes "writes c c'" and "status (store c b) = Deleted"
    and "b \<notin> snd ` set (beansById c)"
    and "\<forall>t. b \<notin> set (beansByType c t)" and "\<forall>n. b \<notin> set (beansByName c n)"
  shows "status (store c' b) = Deleted \<and> b \<notin> snd ` set (beansById c') \<and>
         (\<forall>t. b \<notin> set (beansByType c' t)) \<and> (\<forall>n. b \<notin> set (beansByName c' n))"
  using assms
  by cases (auto simp: setStatus_def deleteById_def indexByType_def indexByName_def
      setExports_def)

lemma afterwards_stays_deleted:
  assumes "afterwards c c'" and "status (store c b) = Deleted"
    and "b \<notin> snd ` set (beansById c)"
    and "\<forall>t. b \<notin> set (beansByType c t)" and "\<forall>n. b \<notin> set (beansByName c n)"
  shows "status (store c' b) = Deleted \<and> b \<notin> snd ` set (beansById c') \<and>
         (\<forall>t. b \<notin> set (beansByType c' t)) \<and> (\<forall>n. b \<notin> set (beansByName c' n))"
  using assms(1) unfolding afterwards_def
proof (induction rule: rtranclp_induct)
  case base
  from assms(2-) show ?case by simp
next
  case (step c1 c2)
  from step.IH writes_stays_deleted [OF step.hyps(2), of b] show ?case by blast
qed

text \<open>The writes keep the identity index and the lookup indices consistent.\<close>

lemma writes_consistent:
  assumes "writes c c'" and "consistent c"
  shows "consistent c'"
  using assms
proof cases
  case (writes_mark a)
  with assms(2) show ?thesis unfolding consistent_def by (auto simp: setStatus_def)
next
  case (writes_delete a)
  with assms(2) show ?thesis unfolding consistent_def
    by (auto simp: setStatus_def deleteById_def distinct_map_filter)
next
  case (writes_type a t)
  with assms(2) show ?thesis unfolding consistent_def by (auto simp: indexByType_def)
next
  case (writes_exports a ex)
  with assms(2) show ?thesis unfolding consistent_def by (auto simp: setExports_def)
next
  case (writes_name a n)
  with assms(2) show ?thesis unfolding consistent_def by (auto simp: indexByName_def)
next
  case (writes_resolved a)
  with assms(2) show ?thesis unfolding consistent_def by (auto simp: setStatus_def)
next
  case writes_other
  with assms(2) show ?thesis unfolding consistent_def by simp
qed

lemma afterwards_consistent:
  assumes "afterwards c c'" and "consistent c"
  shows "consistent c'"
  using assms(1) unfolding afterwards_def
  by (induction rule: rtranclp_induct) (auto intro: assms(2) writes_consistent)

lemma writes_deletedOut:
  assumes "writes c c'" and "consistent c" and "deletedOut c"
  shows "deletedOut c'"
  using assms(1)
proof cases
  case (writes_mark a)
  with assms(3) show ?thesis unfolding deletedOut_def by (auto simp: setStatus_def)
next
  case (writes_delete a)
  have key: "\<forall>e \<in> set (beansById c). snd e = a \<longrightarrow> fst e = beanID (store c a)"
    using assms(2) unfolding consistent_def by auto
  from writes_delete assms(3) key show ?thesis unfolding deletedOut_def
    by (auto simp: setStatus_def deleteById_def)
next
  case (writes_type a t)
  with assms(3) show ?thesis unfolding deletedOut_def by (auto simp: indexByType_def)
next
  case (writes_exports a ex)
  with assms(3) show ?thesis unfolding deletedOut_def by (auto simp: setExports_def)
next
  case (writes_name a n)
  with assms(3) show ?thesis unfolding deletedOut_def by (auto simp: indexByName_def)
next
  case (writes_resolved a)
  with assms(3) show ?thesis unfolding deletedOut_def by (auto simp: setStatus_def)
next
  case writes_other
  with assms(3) show ?thesis unfolding deletedOut_def by simp
qed

lemma afterwards_deletedOut:
  assumes "afterwards c c'" and "consistent c" and "deletedOut c"
  shows "consistent c' \<and> deletedOut c'"
  using assms(1) unfolding afterwards_def
  by (induction rule: rtranclp_induct)
    (auto intro: assms(2,3) writes_consistent writes_deletedOut)

text \<open>
  Every call of the resolution is made of such writes: the second half of
  \<^verbatim>\<open>resolveBean\<close> on a bean that is Resolving, \<^verbatim>\<open>resolveBean\<close> itself, \<^verbatim>\<open>find\<close>,
  the evaluation of a condition, and the loops of \<^verbatim>\<open>Refresh\<close>. The rest of a loop is
  a run of the same loop on the entries left, and the rest of \<^verbatim>\<open>resolveBean\<close> after
  its condition is its second half or the deletion, so these lemmas also bound what
  the calls in progress still do.
\<close>

lemma indexExports_afterwards:
  "status (store c b) = Resolving \<Longrightarrow> indexExports R b ts c = (out, c') \<Longrightarrow> afterwards c c'"
proof (induction ts arbitrary: c)
  case Nil
  then show ?case by (simp add: afterwards_refl)
next
  case (Cons t ts)
  show ?case
  proof (cases "kindOf R t = Interface \<and> implements R (beanType (store c b)) t")
    case False
    with Cons.prems have "c' = c" by (auto split: if_splits)
    then show ?thesis by (simp add: afterwards_refl)
  next
    case True
    let ?c1 = "indexByType t b c"
    from True Cons.prems have r: "indexExports R b ts ?c1 = (out, c')" by simp
    have s: "status (store ?c1 b) = Resolving" using Cons.prems(1) by (simp add: indexByType_def)
    have "writes c ?c1" using Cons.prems(1) by (rule writes_type)
    then have "afterwards c ?c1" by (rule writes_afterwards)
    from this Cons.IH [OF s r] show ?thesis by (rule afterwards_trans)
  qed
qed

lemma resolveBeanKept_afterwards:
  assumes s: "status (store c b) = Resolving" and r: "resolveBeanKept R b c = Some (out, c')"
  shows "afterwards c c'"
proof -
  let ?c3 = "indexByType (beanType (store c b)) b c"
  have s3: "status (store ?c3 b) = Resolving" using s by (simp add: indexByType_def)
  have a3: "afterwards c ?c3" using s by (intro writes_afterwards writes_type)
  from r obtain err ex where ae: "autoExportBean R (store ?c3 b) = Some (err, ex)"
    unfolding resolveBeanKept_def Let_def
    by (cases "autoExportBean R (store ?c3 b)") auto
  let ?c4 = "setExports b ex ?c3"
  have s4: "status (store ?c4 b) = Resolving" using s3 by (simp add: setExports_def)
  have "afterwards ?c3 ?c4" using s3 by (intro writes_afterwards writes_exports)
  with a3 have a4: "afterwards c ?c4" by (rule afterwards_trans)
  show ?thesis
  proof (cases err)
    case (Some e)
    with r ae have "c' = ?c4" unfolding resolveBeanKept_def Let_def by simp
    with a4 show ?thesis by simp
  next
    case None
    obtain o5 c5 where ix: "indexExports R b (exports (store ?c4 b)) ?c4 = (o5, c5)"
      by (cases "indexExports R b (exports (store ?c4 b)) ?c4")
    from indexExports_afterwards [OF s4 ix] a4 have a5: "afterwards c c5"
      by (blast intro: afterwards_trans)
    from indexExports_store [OF ix] s4 have s5: "status (store c5 b) = Resolving" by simp
    show ?thesis
    proof (cases "o5 = Returns None")
      case False
      with r ae None ix have "c' = c5" unfolding resolveBeanKept_def Let_def
        by (cases o5) (auto split: option.splits)
      with a5 show ?thesis by simp
    next
      case True
      let ?c6 = "indexByName (name (store c5 b)) b c5"
      from True r ae None ix have c': "c' = setStatus b Resolved ?c6"
        unfolding resolveBeanKept_def Let_def by simp
      have s6: "status (store ?c6 b) = Resolving" using s5 by (simp add: indexByName_def)
      have "afterwards c5 ?c6" using s5 by (intro writes_afterwards writes_name)
      moreover have "afterwards ?c6 (setStatus b Resolved ?c6)"
        using s6 by (intro writes_afterwards writes_resolved)
      ultimately show ?thesis using a5 c' by (blast intro: afterwards_trans)
    qed
  qed
qed

lemma find_afterwards:
  assumes rb: "\<And>b c out c'. consistent c \<Longrightarrow> rb b c = Some (out, c') \<Longrightarrow> afterwards c c'"
    and r: "find R X rb sel c = Some (out, c')" and con: "consistent c"
  shows "afterwards c c'"
proof -
  have "consistent c \<longrightarrow> afterwards c c'"
  proof (rule find_rel [of "\<lambda>c c'. consistent c \<longrightarrow> afterwards c c'", OF _ _ _ r])
    show "\<And>c. consistent c \<longrightarrow> afterwards c c" by (simp add: afterwards_refl)
    show "\<And>c c' c''. consistent c \<longrightarrow> afterwards c c' \<Longrightarrow> consistent c' \<longrightarrow> afterwards c' c''
        \<Longrightarrow> consistent c \<longrightarrow> afterwards c c''"
      by (blast intro: afterwards_trans afterwards_consistent)
    show "\<And>e c out c'. e \<in> set (beansById c) \<Longrightarrow> rb (snd e) c = Some (out, c') \<Longrightarrow>
        consistent c \<longrightarrow> afterwards c c'"
      using rb by blast
  qed
  with con show ?thesis by simp
qed

lemma condMatches_afterwards:
  assumes rb: "\<And>b c out c'. consistent c \<Longrightarrow> rb b c = Some (out, c') \<Longrightarrow> afterwards c c'"
    and r: "condMatches (find R X rb) co c = Some (out, c')" and con: "consistent c"
  shows "afterwards c c'"
proof (cases co)
  case None
  with r show ?thesis by (simp add: condMatches_def afterwards_refl)
next
  case (Some cd)
  with r have e: "evalCond (find R X rb) cd c = Some (out, c')" by (simp add: condMatches_def)
  have "consistent c \<longrightarrow> afterwards c c'"
  proof (rule evalCond_rel [of "\<lambda>c c'. consistent c \<longrightarrow> afterwards c c'", OF _ _ _ e])
    show "\<And>c. consistent c \<longrightarrow> afterwards c c" by (simp add: afterwards_refl)
    show "\<And>c c' c''. consistent c \<longrightarrow> afterwards c c' \<Longrightarrow> consistent c' \<longrightarrow> afterwards c' c''
        \<Longrightarrow> consistent c \<longrightarrow> afterwards c c''"
      by (blast intro: afterwards_trans afterwards_consistent)
    show "\<And>sel c out c'. find R X rb sel c = Some (out, c') \<Longrightarrow>
        consistent c \<longrightarrow> afterwards c c'"
      using rb by (blast intro: find_afterwards)
  qed
  with con show ?thesis by simp
qed

lemma finderLoop_afterwards:
  assumes rb: "\<And>b c out c'. consistent c \<Longrightarrow> rb b c = Some (out, c') \<Longrightarrow> afterwards c c'"
    and r: "finderLoop rb fn es result c = Some (out, c')" and con: "consistent c"
  shows "afterwards c c'"
proof -
  have "consistent c \<longrightarrow> afterwards c c'"
  proof (rule finderLoop_rel [of "\<lambda>c c'. consistent c \<longrightarrow> afterwards c c'", OF _ _ _ r])
    show "\<And>c. consistent c \<longrightarrow> afterwards c c" by (simp add: afterwards_refl)
    show "\<And>c c' c''. consistent c \<longrightarrow> afterwards c c' \<Longrightarrow> consistent c' \<longrightarrow> afterwards c' c''
        \<Longrightarrow> consistent c \<longrightarrow> afterwards c c''"
      by (blast intro: afterwards_trans afterwards_consistent)
    show "\<And>e c out c'. e \<in> set (beansById c) \<Longrightarrow> rb (snd e) c = Some (out, c') \<Longrightarrow>
        consistent c \<longrightarrow> afterwards c c'"
      using rb by blast
  qed
  with con show ?thesis by simp
qed

text \<open>
  The rest of the calls in progress when a nested \<^verbatim>\<open>resolveBean\<close> has come back:
  the loop of the \<^verbatim>\<open>find\<close> that called it, the condition that made that \<^verbatim>\<open>find\<close>,
  and the \<^verbatim>\<open>resolveBean\<close> that evaluated the condition.
\<close>

lemma finderLoop_rest_afterwards:
  assumes rb: "\<And>b c out c'. consistent c \<Longrightarrow> rb b c = Some (out, c') \<Longrightarrow> afterwards c c'"
    and con: "consistent c"
    and e: "e \<in> set (beansById c)" "status (store c (snd e)) \<noteq> Resolving" "fn (store c (snd e))"
    and call: "rb (snd e) c = Some (Returns None, c1)"
    and loop: "finderLoop rb fn (e # es) result c = Some (out, cE)"
  shows "afterwards c1 cE"
proof -
  from loop e call have l: "finderLoop rb fn es
      (if status (store c1 (snd e)) \<noteq> Deleted then result @ [snd e] else result) c1
      = Some (out, cE)" by simp
  from rb [OF con call] con have con1: "consistent c1" by (rule afterwards_consistent)
  show ?thesis by (rule finderLoop_afterwards [OF _ l con1]) (rule rb)
qed

lemma evalCond_rest_afterwards:
  assumes rb: "\<And>b c out c'. consistent c \<Longrightarrow> rb b c = Some (out, c') \<Longrightarrow> afterwards c c'"
    and con: "consistent c"
    and f: "find R X rb sel c = Some (Returns r, c1)"
    and ev: "evalCond (find R X rb) (CondFind sel k) c = Some (out, cE)"
  shows "afterwards c1 cE"
proof -
  have a1: "afterwards c c1" using rb f con by (rule find_afterwards)
  from a1 con have con1: "consistent c1" by (rule afterwards_consistent)
  from ev f have "condMatches (find R X rb) (Some (k r)) c1 = Some (out, cE)"
    by (simp add: condMatches_def)
  with rb show ?thesis using con1 by (rule condMatches_afterwards)
qed

lemma resolveBeanStep_rest_afterwards:
  assumes ok: "rbOK rb" and con: "consistent c" and d: "status (store c b) = Default"
    and ce: "condMatches (find R X rb) (cond (store c b)) (setStatus b Resolving c) = Some (o2, c2)"
    and r: "resolveBeanStep R X rb b c = Some (out, c')"
  shows "afterwards c2 c'"
proof -
  let ?c1 = "setStatus b Resolving c"
  have cc: "cond (store ?c1 b) = cond (store c b)" by (simp add: setStatus_def)
  have ev: "evolves ?c1 c2" using ok ce by (rule condMatches_evolves)
  have r1: "status (store ?c1 b) \<noteq> Default" by (simp add: setStatus_def)
  have t1: "\<forall>t. b \<notin> set (beansByType ?c1 t)" and n1: "\<forall>n. b \<notin> set (beansByName ?c1 n)"
    using con d unfolding consistent_def by (simp_all add: setStatus_def)
  have s2: "store c2 b = store ?c1 b" using ev r1 by (rule evolves_same)
  then have st2: "status (store c2 b) = Resolving" by (simp add: setStatus_def)
  have t2: "\<forall>t. b \<notin> set (beansByType c2 t)"
    using evolves_newType [OF ev] r1 t1 by blast
  have n2: "\<forall>n. b \<notin> set (beansByName c2 n)"
    using evolves_newName [OF ev] r1 n1 by blast
  from r d ce cc have tail: "(case o2 of Panics m \<Rightarrow> Some (Panics m, c2)
       | Returns False \<Rightarrow> Some (Returns None, setStatus b Deleted (deleteById (beanID (store c2 b)) c2))
       | Returns True \<Rightarrow> resolveBeanKept R b c2) = Some (out, c')"
    unfolding resolveBeanStep_def Let_def by (simp split: outcome.splits bool.splits)
  show ?thesis
  proof (cases o2)
    case (Panics m)
    with tail show ?thesis by (simp add: afterwards_refl)
  next
    case (Returns v)
    show ?thesis
    proof (cases v)
      case True
      with Returns tail have "resolveBeanKept R b c2 = Some (out, c')" by simp
      with st2 show ?thesis by (rule resolveBeanKept_afterwards)
    next
      case False
      with Returns tail have "c' = setStatus b Deleted (deleteById (beanID (store c2 b)) c2)"
        by simp
      with writes_delete [OF st2 t2 n2] show ?thesis by (simp add: writes_afterwards)
    qed
  qed
qed

lemma resolveBeanStep_afterwards:
  assumes ok: "rbOK rb"
    and rb: "\<And>b c out c'. consistent c \<Longrightarrow> rb b c = Some (out, c') \<Longrightarrow> afterwards c c'"
    and con: "consistent c" and r: "resolveBeanStep R X rb b c = Some (out, c')"
  shows "afterwards c c'"
proof (cases "statusOrd (status (store c b)) \<ge> statusOrd Resolving")
  case True
  with r have "c' = c" by (simp add: resolveBeanStep_def)
  then show ?thesis by (simp add: afterwards_refl)
next
  case False
  then have d: "status (store c b) = Default" by (cases "status (store c b)") simp_all
  let ?c1 = "setStatus b Resolving c"
  let ?ce = "condMatches (find R X rb) (cond (store c b)) ?c1"
  have cc: "cond (store ?c1 b) = cond (store c b)" by (simp add: setStatus_def)
  from r False cc obtain o2 c2 where ce: "?ce = Some (o2, c2)"
    unfolding resolveBeanStep_def Let_def by (cases ?ce) auto
  have w1: "writes c ?c1" using d by (rule writes_mark)
  then have a1: "afterwards c ?c1" by (rule writes_afterwards)
  have con1: "consistent ?c1" using w1 con by (rule writes_consistent)
  have a2: "afterwards ?c1 c2" using rb ce con1 by (rule condMatches_afterwards)
  have "afterwards c2 c'" using ok con d ce r by (rule resolveBeanStep_rest_afterwards)
  with a1 a2 show ?thesis by (blast intro: afterwards_trans)
qed

lemma resolveBeanN_afterwards:
  "consistent c \<Longrightarrow> resolveBeanN n R X b c = Some (out, c') \<Longrightarrow> afterwards c c'"
proof (induction n arbitrary: b c out c')
  case 0
  then show ?case by simp
next
  case (Suc n)
  from Suc.prems(2) have step: "resolveBeanStep R X (resolveBeanN n R X) b c = Some (out, c')"
    by simp
  show ?case
    by (rule resolveBeanStep_afterwards [OF resolveBeanN_rbOK _ Suc.prems(1) step])
      (rule Suc.IH)
qed

lemma resolveBeanN_rest_afterwards:
  assumes "consistent c" and "status (store c b) = Default"
    and "condMatches (find R X (resolveBeanN n R X)) (cond (store c b))
           (setStatus b Resolving c) = Some (o2, c2)"
    and "resolveBeanN (Suc n) R X b c = Some (out, c')"
  shows "afterwards c2 c'"
  using resolveBeanStep_rest_afterwards [OF resolveBeanN_rbOK assms(1,2,3)] assms(4) by simp

lemma resolveBeansFrom_afterwards:
  "consistent c \<Longrightarrow> resolveBeansFrom n R X es c = Some (out, c') \<Longrightarrow> afterwards c c'"
proof (induction es arbitrary: c)
  case Nil
  then show ?case by (simp add: afterwards_refl)
next
  case (Cons e es)
  show ?case
  proof (cases "e \<in> set (beansById c)")
    case False
    with Cons.prems have "resolveBeansFrom n R X es c = Some (out, c')" by simp
    with Cons.prems(1) show ?thesis by (rule Cons.IH)
  next
    case True
    with Cons.prems obtain o1 c1 where r: "resolveBeanN n R X (snd e) c = Some (o1, c1)"
      by (cases "resolveBeanN n R X (snd e) c") auto
    from Cons.prems(1) r have a1: "afterwards c c1" by (rule resolveBeanN_afterwards)
    show ?thesis
    proof (cases "o1 = Returns None")
      case False
      with True r Cons.prems have "c' = c1"
        by (cases o1) (auto split: option.splits)
      with a1 show ?thesis by simp
    next
      case ok: True
      with True r Cons.prems have "resolveBeansFrom n R X es c1 = Some (out, c')" by simp
      with afterwards_consistent [OF a1 Cons.prems(1)] have "afterwards c1 c'"
        by (rule Cons.IH)
      with a1 show ?thesis by (rule afterwards_trans)
    qed
  qed
qed

lemma resolveBeans_afterwards:
  "consistent c \<Longrightarrow> resolveBeans n R X c = Some (out, c') \<Longrightarrow> afterwards c c'"
  unfolding resolveBeans_def by (rule resolveBeansFrom_afterwards)

lemma resolveConfigersFrom_afterwards:
  "consistent c \<Longrightarrow> resolveConfigersFrom n R X gs c = Some (out, c') \<Longrightarrow> afterwards c c'"
proof (induction gs arbitrary: c)
  case Nil
  then show ?case by (simp add: afterwards_refl)
next
  case (Cons g gs)
  let ?m = "condMatches (find R X (resolveBeanN n R X)) (cfgCond g) c"
  from Cons.prems obtain o1 c1 where m: "?m = Some (o1, c1)" by (cases ?m) auto
  have a1: "afterwards c c1"
    by (rule condMatches_afterwards [OF _ m Cons.prems(1)]) (rule resolveBeanN_afterwards)
  show ?case
  proof (cases o1)
    case (Panics msg)
    with m Cons.prems have "c' = c1" by simp
    with a1 show ?thesis by simp
  next
    case (Returns v)
    let ?c2 = "if v then c1\<lparr>configerList := configerList c1 @ [g]\<rparr> else c1"
    have "writes c1 ?c2" by (intro writes_other) simp_all
    with a1 have a2: "afterwards c ?c2" by (rule afterwards_step)
    from Returns m Cons.prems have "resolveConfigersFrom n R X gs ?c2 = Some (out, c')" by simp
    with afterwards_consistent [OF a2 Cons.prems(1)] have "afterwards ?c2 c'" by (rule Cons.IH)
    with a2 show ?thesis by (rule afterwards_trans)
  qed
qed

lemma resolveConfigers_afterwards:
  assumes "consistent c" and "resolveConfigers n R X c = Some (out, c')"
  shows "afterwards c c'"
proof -
  from assms(2) obtain o1 c1 where r: "resolveConfigersFrom n R X (configers c) c = Some (o1, c1)"
    unfolding resolveConfigers_def by (cases "resolveConfigersFrom n R X (configers c) c") auto
  from assms(1) r have a1: "afterwards c c1" by (rule resolveConfigersFrom_afterwards)
  from assms(2) r have "c' = c1 \<or> c' = c1\<lparr>configerList := sortConfigers X (configerList c1)\<rparr>"
    unfolding resolveConfigers_def by (cases o1) auto
  then have "writes c1 c'" by (intro writes_other) auto
  with a1 show ?thesis by (rule afterwards_step)
qed

text \<open>
  The containers reached by whole calls from a consistent container, as \<open>later\<close> has
  them, are among those that \<open>afterwards\<close> has.
\<close>

lemma later_afterwards:
  assumes "later R X c c'" and "consistent c"
  shows "afterwards c c'"
  using assms(1)
proof (induction rule: later.induct)
  case later_now
  show ?case by (rule afterwards_refl)
next
  case (later_resolve c1 b n out c2)
  from afterwards_consistent [OF later_resolve.IH assms(2)] later_resolve.hyps(3)
  have "afterwards c1 c2" by (rule resolveBeanN_afterwards)
  with later_resolve.IH show ?case by (rule afterwards_trans)
next
  case (later_find c1 n sel fout c2)
  have "afterwards c1 c2"
    by (rule find_afterwards [OF _ later_find.hyps(2)
          afterwards_consistent [OF later_find.IH assms(2)]])
      (rule resolveBeanN_afterwards)
  with later_find.IH show ?case by (rule afterwards_trans)
next
  case (later_other c1 c2)
  then have "writes c1 c2" by (intro writes_other) simp_all
  with later_other.IH show ?case by (rule afterwards_step)
qed

text \<open>
  \<^verbatim>\<open>find\<close> appends a bean only after \<^verbatim>\<open>resolveBean\<close> has returned \<^verbatim>\<open>nil\<close> for it
  and left it other than Deleted, so every bean it returns is Resolved.
\<close>

lemma resolveBeanN_terminal:
  assumes "resolveBeanN n R X b c = Some (Returns None, c')"
    and "status (store c b) \<noteq> Resolving"
  shows "status (store c' b) = Resolved \<or> status (store c' b) = Deleted"
proof (cases n)
  case 0
  with assms(1) show ?thesis by simp
next
  case (Suc k)
  with assms(1) have r: "resolveBeanStep R X (resolveBeanN k R X) b c = Some (Returns None, c')"
    by simp
  show ?thesis
  proof (cases "statusOrd (status (store c b)) \<ge> statusOrd Resolving")
    case True
    with r have "c' = c" by (simp add: resolveBeanStep_def)
    with True assms(2) show ?thesis by (cases "status (store c b)") simp_all
  next
    case False
    let ?c1 = "setStatus b Resolving c"
    let ?ce = "condMatches (find R X (resolveBeanN k R X)) (cond (store ?c1 b)) ?c1"
    from r False obtain o2 c2 where ce: "?ce = Some (o2, c2)"
      unfolding resolveBeanStep_def Let_def by (cases ?ce) auto
    from r False ce have tail: "(case o2 of Panics m \<Rightarrow> Some (Panics m, c2)
       | Returns False \<Rightarrow> Some (Returns None, setStatus b Deleted (deleteById (beanID (store c2 b)) c2))
       | Returns True \<Rightarrow> resolveBeanKept R b c2) = Some (Returns None, c')"
      unfolding resolveBeanStep_def Let_def by (simp split: outcome.splits bool.splits)
    show ?thesis
    proof (cases o2)
      case (Panics m)
      with tail show ?thesis by simp
    next
      case (Returns v)
      show ?thesis
      proof (cases v)
        case True
        with Returns tail have "resolveBeanKept R b c2 = Some (Returns None, c')" by simp
        from resolveBeanKept_status [OF this] show ?thesis by simp
      next
        case False
        with Returns tail show ?thesis by (auto simp: setStatus_def)
      qed
    qed
  qed
qed

lemma finderLoop_resolved:
  "\<forall>q \<in> set result. status (store c q) = Resolved \<Longrightarrow>
   finderLoop (resolveBeanN n R X) fn es result c = Some (Returns (found, err), c') \<Longrightarrow>
   \<forall>q \<in> set found. status (store c' q) = Resolved"
proof (induction es arbitrary: result c)
  case Nil
  then show ?case by auto
next
  case (Cons e es)
  let ?rb = "resolveBeanN n R X"
  show ?case
  proof (cases "e \<in> set (beansById c) \<and> status (store c (snd e)) \<noteq> Resolving \<and> fn (store c (snd e))")
    case False
    with Cons.prems(2) have "finderLoop ?rb fn es result c = Some (Returns (found, err), c')"
      by (auto split: if_splits)
    with Cons.prems(1) show ?thesis by (rule Cons.IH)
  next
    case True
    show ?thesis
    proof (cases "?rb (snd e) c")
      case None
      with True Cons.prems(2) show ?thesis by simp
    next
      case (Some r)
      obtain o1 c1 where r: "r = (o1, c1)" by (cases r)
      from Some r have run: "?rb (snd e) c = Some (o1, c1)" by simp
      from resolveBeanN_rbOK [of n R X] run have ev: "evolves c c1" unfolding rbOK_def by blast
      have old: "\<forall>q \<in> set result. status (store c1 q) = Resolved"
      proof
        fix q assume "q \<in> set result"
        with Cons.prems(1) have s: "status (store c q) = Resolved" by simp
        then have "status (store c q) \<noteq> Default" by simp
        with ev have "store c1 q = store c q" by (rule evolves_same)
        with s show "status (store c1 q) = Resolved" by simp
      qed
      show ?thesis
      proof (cases o1)
        case (Panics m)
        with True run Cons.prems(2) show ?thesis by simp
      next
        case (Returns e1)
        show ?thesis
        proof (cases e1)
          case (Some e2)
          with Returns True run Cons.prems(2) show ?thesis by auto
        next
          case None
          let ?res = "if status (store c1 (snd e)) \<noteq> Deleted then result @ [snd e] else result"
          from None Returns True run Cons.prems(2)
          have loop: "finderLoop ?rb fn es ?res c1 = Some (Returns (found, err), c')" by simp
          from None Returns run True
          have "status (store c1 (snd e)) = Resolved \<or> status (store c1 (snd e)) = Deleted"
            by (intro resolveBeanN_terminal [of n R X "snd e" c c1]) simp_all
          with old have "\<forall>q \<in> set ?res. status (store c1 q) = Resolved" by auto
          from this loop show ?thesis by (rule Cons.IH)
        qed
      qed
    qed
  qed
qed

lemma find_returns_Resolved:
  assumes "find R X (resolveBeanN n R X) sel c = Some (Returns (found, err), c')"
  shows "\<forall>q \<in> set found. status (store c' q) = Resolved"
proof -
  have start: "\<forall>q \<in> set ([] :: ptr list). status (store c q) = Resolved" by simp
  from assms show ?thesis
    unfolding find_def callAfterRefreshing_def
    by (auto simp: Let_def split: if_splits selector.splits
        dest!: finderLoop_resolved [OF start])
qed

lemma wireBeansFrom_passed:
  "wireBeansFrom X es w = (out, w', passed) \<Longrightarrow> set passed \<subseteq> snd ` set es"
proof (induction es arbitrary: w out w' passed)
  case Nil
  then show ?case by simp
next
  case (Cons e es)
  obtain o1 w1 where r: "wireBean X (snd e) w = (o1, w1)" by (cases "wireBean X (snd e) w")
  show ?case
  proof (cases "o1 = Returns None")
    case False
    with r Cons.prems have "passed = [snd e]"
      by (cases o1) (auto split: option.splits)
    then show ?thesis by simp
  next
    case True
    obtain o2 w2 p2 where r2: "wireBeansFrom X es w1 = (o2, w2, p2)"
      by (cases "wireBeansFrom X es w1") auto
    with True r Cons.prems have "passed = snd e # p2" by simp
    with Cons.IH [OF r2] show ?thesis by auto
  qed
qed

lemma wireBeansFrom_all:
  "wireBeansFrom X es w = (Returns None, w', passed) \<Longrightarrow> passed = map snd es"
proof (induction es arbitrary: w w' passed)
  case Nil
  then show ?case by simp
next
  case (Cons e es)
  obtain o1 w1 where r: "wireBean X (snd e) w = (o1, w1)" by (cases "wireBean X (snd e) w")
  show ?case
  proof (cases "o1 = Returns None")
    case False
    with r Cons.prems show ?thesis by (cases o1) (auto split: option.splits)
  next
    case True
    obtain o2 w2 p2 where r2: "wireBeansFrom X es w1 = (o2, w2, p2)"
      by (cases "wireBeansFrom X es w1") auto
    with True r Cons.prems have "o2 = Returns None" "passed = snd e # p2" by simp_all
    with Cons.IH [of w1 w2 p2] r2 show ?thesis by simp
  qed
qed

text \<open>
  A whole \<^verbatim>\<open>Refresh\<close>, on a container whose indices are empty and in which no
  descriptor is Deleted, as \<^verbatim>\<open>New\<close> and the registration leave it. However the
  resolutions nest, when \<^verbatim>\<open>Refresh\<close> comes back every Deleted descriptor is in none
  of the indices; and when it returns, \<^verbatim>\<open>wireBeans\<close> has handed to the injection
  mechanism exactly the entries of the identity index, none of which is Deleted.
\<close>

lemma Refresh_deleted_out:
  assumes e: "beansById c = []"
    and i: "\<forall>q. (\<forall>t. q \<notin> set (beansByType c t)) \<and> (\<forall>n. q \<notin> set (beansByName c n))"
    and nd: "\<forall>q. status (store c q) \<noteq> Deleted"
    and r: "Refresh n R X c w = Some (out, cF, wF)"
  shows "deletedOut cF"
proof (cases "state c = Unrefreshed")
  case False
  with r have "cF = c" by (simp add: Refresh_def)
  with nd show ?thesis by (simp add: deletedOut_def)
next
  case True
  let ?c1 = "c\<lparr>state := Refreshing\<rparr>"
  obtain o2 c2 where r2: "registerBeans ?c1 = (o2, c2)" by (cases "registerBeans ?c1")
  from registerBeansFrom_frame [of "beans ?c1" ?c1 o2 c2] r2
  have s2: "store c2 = store c" by (simp add: registerBeans_def)
  with nd have d2: "deletedOut c2" by (simp add: deletedOut_def)
  show ?thesis
  proof (cases o2)
    case (Panics m)
    with r r2 True have "cF = c2" by (simp add: Refresh_def)
    with d2 show ?thesis by simp
  next
    case (Returns u)
    from e i have "beansById ?c1 = []"
      "\<forall>q. (\<forall>t. q \<notin> set (beansByType ?c1 t)) \<and> (\<forall>n. q \<notin> set (beansByName ?c1 n))"
      by simp_all
    from this r2 [unfolded Returns] have con2: "consistent c2" by (rule registerBeans_consistent)
    from r r2 Returns True obtain o3 c3 where r3: "resolveConfigers n R X c2 = Some (o3, c3)"
      by (cases "resolveConfigers n R X c2") (auto simp: Refresh_def)
    from con2 r3 have a3: "afterwards c2 c3" by (rule resolveConfigers_afterwards)
    show ?thesis
    proof (cases o3)
      case (Panics m)
      with r r2 Returns r3 True have "cF = c3" by (simp add: Refresh_def)
      with afterwards_deletedOut [OF a3 con2 d2] show ?thesis by simp
    next
      case u3: (Returns u')
      with r r2 Returns r3 True obtain o4 c4 where r4: "resolveBeans n R X c3 = Some (o4, c4)"
        by (cases "resolveBeans n R X c3") (auto simp: Refresh_def)
      from afterwards_consistent [OF a3 con2] r4 have "afterwards c3 c4"
        by (rule resolveBeans_afterwards)
      with a3 have a4: "afterwards c2 c4" by (rule afterwards_trans)
      from r r2 Returns r3 u3 r4 True
      have "cF = c4 \<or> cF = c4\<lparr>destroyerList := sortDestroyers X wF, state := Refreshed\<rparr>"
        by (auto simp: Refresh_def split: outcome.splits option.splits prod.splits)
      then have "writes c4 cF" by (intro writes_other) auto
      with a4 have "afterwards c2 cF" by (rule afterwards_step)
      from afterwards_deletedOut [OF this con2 d2] show ?thesis by simp
    qed
  qed
qed

lemma Refresh_wires_no_deleted:
  assumes e: "beansById c = []"
    and i: "\<forall>q. (\<forall>t. q \<notin> set (beansByType c t)) \<and> (\<forall>n. q \<notin> set (beansByName c n))"
    and nd: "\<forall>q. status (store c q) \<noteq> Deleted"
    and r: "Refresh n R X c w = Some (Returns (), cF, wF)"
  shows "\<exists>w1 passed. wireBeans X cF w1 = (Returns None, wF, passed) \<and>
           passed = map snd (beansById cF) \<and>
           (\<forall>q \<in> set passed. status (store cF q) \<noteq> Deleted)"
proof -
  from r obtain c4 w1 passed where w: "wireBeans X c4 w1 = (Returns None, wF, passed)"
    and cF: "cF = c4\<lparr>destroyerList := sortDestroyers X wF, state := Refreshed\<rparr>"
    by (auto simp: Refresh_def Let_def
        split: if_splits outcome.splits option.splits prod.splits)
  from w cF have w': "wireBeans X cF w1 = (Returns None, wF, passed)"
    by (simp add: wireBeans_def)
  then have p: "passed = map snd (beansById cF)"
    unfolding wireBeans_def by (rule wireBeansFrom_all)
  from Refresh_deleted_out [OF e i nd r] p
  have "\<forall>q \<in> set passed. status (store cF q) \<noteq> Deleted"
    unfolding deletedOut_def by auto
  with w' p show ?thesis by blast
qed

text \<open>
  C1. When the condition of a descriptor evaluates to false, \<^verbatim>\<open>resolveBean\<close> returns
  \<^verbatim>\<open>nil\<close> having removed the descriptor from the identity index and marked it Deleted.
  In that container and in every container met afterwards, in the rest of the calls in
  progress (a \<^verbatim>\<open>find\<close> that resolved the descriptor on demand, the \<^verbatim>\<open>resolveBean\<close>
  whose condition made that \<^verbatim>\<open>find\<close>, the loops of \<^verbatim>\<open>Refresh\<close>) as in later calls,
  the descriptor is still Deleted and is in neither the identity index nor the by-type
  index nor the by-name index. No \<^verbatim>\<open>find\<close> that comes back afterwards returns it,
  wherever that \<^verbatim>\<open>find\<close> began; \<^verbatim>\<open>wireBeans\<close> does not hand it to the injection
  mechanism; and the calls of \<^verbatim>\<open>find\<close> and \<^verbatim>\<open>resolveBean\<close> made afterwards lead to
  containers of which all this holds again.
\<close>

theorem resolveBean_false_condition_deletes:
  assumes con: "consistent c"
    and d: "status (store c b) = Default"
    and ev: "condMatches (find R X (resolveBeanN n R X)) (cond (store c b))
               (setStatus b Resolving c) = Some (Returns False, c2)"
    and c': "c' = setStatus b Deleted (deleteById (beanID (store c2 b)) c2)"
    and lt: "afterwards c' c''"
  shows "resolveBeanN (Suc n) R X b c = Some (Returns None, c') \<and>
         status (store c' b) = Deleted \<and> b \<notin> snd ` set (beansById c') \<and>
         status (store c'' b) = Deleted \<and> b \<notin> snd ` set (beansById c'') \<and>
         (\<forall>t. b \<notin> set (beansByType c'' t)) \<and> (\<forall>nm. b \<notin> set (beansByName c'' nm)) \<and>
         (\<forall>m sel c0 found err.
            find R X (resolveBeanN m R X) sel c0 = Some (Returns (found, err), c'') \<longrightarrow>
            b \<notin> set found) \<and>
         (\<forall>m sel found err c3.
            find R X (resolveBeanN m R X) sel c'' = Some (Returns (found, err), c3) \<longrightarrow>
            b \<notin> set found) \<and>
         (\<forall>w out w' passed. wireBeans X c'' w = (out, w', passed) \<longrightarrow> b \<notin> set passed) \<and>
         (\<forall>m sel out c3.
            find R X (resolveBeanN m R X) sel c'' = Some (out, c3) \<longrightarrow> afterwards c' c3) \<and>
         (\<forall>m a out c3. resolveBeanN m R X a c'' = Some (out, c3) \<longrightarrow> afterwards c' c3)"
proof -
  let ?c1 = "setStatus b Resolving c"
  have run: "resolveBeanN (Suc n) R X b c = Some (Returns None, c')"
    using d ev c' by (simp add: resolveBeanStep_def setStatus_def)
  have ev12: "evolves ?c1 c2" using resolveBeanN_rbOK ev by (rule condMatches_evolves)
  have r1: "status (store ?c1 b) \<noteq> Default" by (simp add: setStatus_def)
  have t1: "\<forall>t. b \<notin> set (beansByType ?c1 t)" and n1: "\<forall>n. b \<notin> set (beansByName ?c1 n)"
    using con d unfolding consistent_def by (simp_all add: setStatus_def)
  have s2: "store c2 b = store ?c1 b" using ev12 r1 by (rule evolves_same)
  have t2: "\<forall>t. b \<notin> set (beansByType c2 t)"
    using evolves_newType [OF ev12] r1 t1 by blast
  have n2: "\<forall>n. b \<notin> set (beansByName c2 n)"
    using evolves_newName [OF ev12] r1 n1 by blast
  have id2: "beanID (store c2 b) = beanID (store c b)" using s2 by (simp add: setStatus_def)
  have sub2: "set (beansById c2) \<subseteq> set (beansById c)"
    using evolves_byId_subset [OF ev12] by (simp add: setStatus_def)
  have key: "\<forall>e \<in> set (beansById c2). snd e = b \<longrightarrow> fst e = beanID (store c b)"
    using con sub2 unfolding consistent_def by auto
  have st': "status (store c' b) = Deleted" using c' by (simp add: setStatus_def)
  have t': "\<forall>t. b \<notin> set (beansByType c' t)" using c' t2 by (simp add: setStatus_def deleteById_def)
  have n': "\<forall>n. b \<notin> set (beansByName c' n)" using c' n2 by (simp add: setStatus_def deleteById_def)
  have i': "b \<notin> snd ` set (beansById c')"
    using c' key id2 by (auto simp: setStatus_def deleteById_def)
  from afterwards_stays_deleted [OF lt st' i' t' n']
  have fin: "status (store c'' b) = Deleted" "b \<notin> snd ` set (beansById c'')"
    "\<forall>t. b \<notin> set (beansByType c'' t)" "\<forall>n. b \<notin> set (beansByName c'' n)"
    by simp_all
  have con': "consistent c'" using resolveBeanN_afterwards [OF con run] con
    by (rule afterwards_consistent)
  have con'': "consistent c''" using lt con' by (rule afterwards_consistent)
  have f0: "\<forall>m sel c0 found err.
            find R X (resolveBeanN m R X) sel c0 = Some (Returns (found, err), c'') \<longrightarrow>
            b \<notin> set found"
    using fin(1) by (auto dest!: find_returns_Resolved)
  have cl1: "\<forall>m sel out c3.
            find R X (resolveBeanN m R X) sel c'' = Some (out, c3) \<longrightarrow> afterwards c' c3"
  proof (intro allI impI)
    fix m sel out c3
    assume f: "find R X (resolveBeanN m R X) sel c'' = Some (out, c3)"
    have "afterwards c'' c3"
      by (rule find_afterwards [OF _ f con'']) (rule resolveBeanN_afterwards)
    with lt show "afterwards c' c3" by (rule afterwards_trans)
  qed
  have cl2: "\<forall>m a out c3. resolveBeanN m R X a c'' = Some (out, c3) \<longrightarrow> afterwards c' c3"
    using lt con'' by (blast intro: afterwards_trans resolveBeanN_afterwards)
  have f1: "\<forall>m sel found err c3.
            find R X (resolveBeanN m R X) sel c'' = Some (Returns (found, err), c3) \<longrightarrow>
            b \<notin> set found"
  proof (intro allI impI)
    fix m sel found err c3
    assume f: "find R X (resolveBeanN m R X) sel c'' = Some (Returns (found, err), c3)"
    with cl1 have "afterwards c' c3" by blast
    from afterwards_stays_deleted [OF this st' i' t' n']
    have "status (store c3 b) = Deleted" by simp
    with find_returns_Resolved [OF f] show "b \<notin> set found" by auto
  qed
  have w: "\<forall>w out w' passed. wireBeans X c'' w = (out, w', passed) \<longrightarrow> b \<notin> set passed"
    using fin(2) unfolding wireBeans_def by (blast dest: wireBeansFrom_passed)
  from run st' i' fin f0 f1 w cl1 cl2 show ?thesis by blast
qed

text \<open>
  A run in which the deletion is nested: resolving \<^verbatim>\<open>t\<close> marks it Resolving and
  evaluates its condition, whose \<^verbatim>\<open>find\<close> resolves \<^verbatim>\<open>v\<close>; the condition of \<^verbatim>\<open>v\<close>
  is false, so \<^verbatim>\<open>v\<close> is deleted, the \<^verbatim>\<open>find\<close> in progress returns nothing, and the
  container in which the enclosing \<^verbatim>\<open>resolveBean\<close> leaves \<^verbatim>\<open>t\<close> Resolved comes
  afterwards.
\<close>

theorem resolveBean_false_condition_deletes_witness:
  "consistent (setStatus 6 Resolving sampleNested) \<and>
   status (store (setStatus 6 Resolving sampleNested) 3) = Default \<and>
   (\<exists>c' cF.
      resolveBeanN 1 sampleReflect sampleExt 3 (setStatus 6 Resolving sampleNested)
        = Some (Returns None, c') \<and>
      find sampleReflect sampleExt (resolveBeanN 1 sampleReflect sampleExt) (SelString ''v'')
        (setStatus 6 Resolving sampleNested) = Some (Returns ([], None), c') \<and>
      resolveBeanN 2 sampleReflect sampleExt 6 sampleNested = Some (Returns None, cF) \<and>
      afterwards c' cF \<and> status (store cF 6) = Resolved \<and>
      status (store cF 3) = Deleted \<and> 3 \<notin> snd ` set (beansById cF) \<and>
      (\<forall>t. 3 \<notin> set (beansByType cF t)) \<and> (\<forall>nm. 3 \<notin> set (beansByName cF nm)) \<and>
      (\<forall>w out w' passed. wireBeans sampleExt cF w = (out, w', passed) \<longrightarrow> 3 \<notin> set passed))"
proof -
  let ?R = sampleReflect
  let ?X = sampleExt
  define c where "c = setStatus 6 Resolving sampleNested"
  have con: "consistent c"
    unfolding consistent_def by (simp add: c_def setStatus_def sample_defs)
  have d: "status (store c 3) = Default" by (simp add: c_def setStatus_def sample_defs)
  have ev: "condMatches (find ?R ?X (resolveBeanN 0 ?R ?X)) (cond (store c 3))
      (setStatus 3 Resolving c) = Some (Returns False, setStatus 3 Resolving c)"
    by (simp add: condMatches_def c_def setStatus_def sample_defs)
  define c' where
    "c' = setStatus 3 Deleted
            (deleteById (beanID (store (setStatus 3 Resolving c) 3)) (setStatus 3 Resolving c))"
  note T = resolveBean_false_condition_deletes [OF con d ev c'_def]
  from T [OF afterwards_refl]
  have run: "resolveBeanN (Suc 0) ?R ?X 3 c = Some (Returns None, c')"
    and st: "status (store c' 3) = Deleted" by blast+
  have bi: "beansById c = [(''t'', 6), (''v'', 3)]"
    and s6: "status (store c 6) = Resolving" and nm: "name (store c 3) = ''v''"
    and stt: "state c = Refreshing"
    by (simp_all add: c_def setStatus_def sample_defs)
  have F: "find ?R ?X (resolveBeanN (Suc 0) ?R ?X) (SelString ''v'') c
      = Some (Returns ([], None), c')"
    using run st bi s6 nm stt d
    by (simp add: find_def callAfterRefreshing_def sampleExt_def Let_def)
  have cd: "cond (store sampleNested 6)
      = Some (CondFind (SelString ''v'') (\<lambda>r. CondReturn (fst r = [])))"
    by (simp add: sample_defs)
  have d6: "status (store sampleNested 6) = Default" by (simp add: sample_defs)
  have cm: "condMatches (find ?R ?X (resolveBeanN (Suc 0) ?R ?X)) (cond (store sampleNested 6))
      (setStatus 6 Resolving sampleNested) = Some (Returns True, c')"
    using F unfolding cd condMatches_def c_def by simp
  from resolveBeanStep_condition_true(1) [OF d6 cm]
  have outer: "resolveBeanN (Suc (Suc 0)) ?R ?X 6 sampleNested = resolveBeanKept ?R 6 c'" .
  have s6': "status (store c' 6) = Resolving"
    by (simp add: c'_def c_def setStatus_def deleteById_def)
  have ae: "autoExportBean ?R (store c' 6) = Some (None, [])"
    by (simp add: c'_def c_def setStatus_def deleteById_def autoExportBean_def autoExport_def
        Indirect_def sample_defs autoExportFrom.simps)
  from resolveBeanKept_ok [OF ae] obtain cF where
    k: "resolveBeanKept ?R 6 c' = Some (Returns None, cF)" and r6: "status (store cF 6) = Resolved"
    by auto
  from s6' k have lt: "afterwards c' cF" by (rule resolveBeanKept_afterwards)
  from T [OF lt]
  have fin: "status (store cF 3) = Deleted \<and> 3 \<notin> snd ` set (beansById cF) \<and>
    (\<forall>t. 3 \<notin> set (beansByType cF t)) \<and> (\<forall>nm. 3 \<notin> set (beansByName cF nm)) \<and>
    (\<forall>w out w' passed. wireBeans ?X cF w = (out, w', passed) \<longrightarrow> 3 \<notin> set passed)"
    by (elim conjE) (intro conjI; assumption)
  have one: "(1::nat) = Suc 0" and two: "(2::nat) = Suc (Suc 0)" by simp_all
  from outer k have outer': "resolveBeanN (Suc (Suc 0)) ?R ?X 6 sampleNested = Some (Returns None, cF)"
    by simp
  from con d run F outer' lt r6 fin show ?thesis
    unfolding c_def [symmetric] one two by blast
qed

end
